theory Spec2Isabelle
  imports Main "HOL-Library.Word"
begin

unbundle bit_operations_syntax

section \<open>Machine words and bit primitives\<close>

text \<open>
  The filters of \<^verbatim>\<open>counting_bloom.h\<close> work on \<^verbatim>\<open>uint64_t\<close> and \<^verbatim>\<open>uint32_t\<close> values.
  They are modelled as words of HOL-Library.Word, so \<open>+\<close>, \<open>-\<close> and \<open>*\<close> wrap around.
\<close>

type_synonym u64 = "64 word"
type_synonym u32 = "32 word"

text \<open>
  Shifts of a \<^verbatim>\<open>uint64_t\<close> by a run-time count. The source shifts by counts such as
  \<^verbatim>\<open>bit * 4\<close>, \<^verbatim>\<open>4 * j\<close> and \<^verbatim>\<open>8 * (bit & 0xf)\<close>, which reach 64 and more. C++ leaves
  such a shift undefined; the shift instructions of x86-64 (and of AArch64), for which the
  header is written, take the count modulo 64, and the source depends on it (the lane of
  bit \<open>i\<close> is addressed by \<^verbatim>\<open>1ULL << (i * 4)\<close> inside word \<^verbatim>\<open>i / 16\<close>). The model takes
  the count modulo 64. For counts in \<open>[0, 64)\<close> this is the C++ shift.
\<close>

definition shl64 :: "u64 \<Rightarrow> int \<Rightarrow> u64" where
  "shl64 x n = push_bit (nat (n mod 64)) x"

definition shr64 :: "u64 \<Rightarrow> int \<Rightarrow> u64" where
  "shr64 x n = drop_bit (nat (n mod 64)) x"

text \<open>\<^verbatim>\<open>bitCount64\<close>: \<^verbatim>\<open>__builtin_popcountll\<close>, the number of set bits.\<close>

definition bitCount64 :: "u64 \<Rightarrow> int" where
  "bitCount64 x = int (length (filter (bit x) [0..<64]))"

text \<open>
  \<^verbatim>\<open>select64\<close>, the portable branch (taken when \<^verbatim>\<open>__BMI2__\<close> is not defined): the loop
  \<^verbatim>\<open>for (i = 0; i < 64; i++) { if ((x & 1) == 1) { if (n-- == 0) return i; } x >>= 1; }\<close>
  followed by \<^verbatim>\<open>return -1\<close>. The first argument of the loop function is the number of
  iterations left, the last one the loop variable \<open>i\<close>.
\<close>

fun select64_loop :: "nat \<Rightarrow> u64 \<Rightarrow> int \<Rightarrow> int \<Rightarrow> int" where
  "select64_loop 0 x n i = - 1"
| "select64_loop (Suc r) x n i =
     (if x AND 1 = 1
      then (if n = 0 then i else select64_loop r (drop_bit 1 x) (n - 1) (i + 1))
      else select64_loop r (drop_bit 1 x) n (i + 1))"

definition select64 :: "u64 \<Rightarrow> int \<Rightarrow> int" where
  "select64 x n = select64_loop 64 x n 0"

text \<open>
  \<^verbatim>\<open>numberOfLeadingZeros64\<close>: \<^verbatim>\<open>__builtin_clzl\<close>. The source notes that the result is
  undefined for 0; the model returns 64 there, and no caller passes 0.
\<close>

definition numberOfLeadingZeros64 :: "u64 \<Rightarrow> int" where
  "numberOfLeadingZeros64 x = int (length (takeWhile (\<lambda>i. \<not> bit x i) (rev [0..<64])))"

text \<open>\<^verbatim>\<open>reduce\<close>: \<^verbatim>\<open>(uint32_t)(((uint64_t)hash * n) >> 32)\<close>.\<close>

definition reduce :: "u32 \<Rightarrow> u32 \<Rightarrow> u32" where
  "reduce hash n = ucast (drop_bit 32 ((ucast hash :: u64) * (ucast n :: u64)))"

datatype Status = Ok | NotFound | NotEnoughSpace | NotSupported

text \<open>
  Arrays are modelled as total maps from indices to words, with the allocated length kept
  beside them. Reading or writing at or beyond the length is undefined in C++; where a
  theorem below depends on it, it carries the bounds that keep the accesses inside the
  arrays.

  The hash family is a template parameter of the filters: the model takes the hash function
  \<open>hasher\<close> as an argument, and the number of probes \<open>k\<close> (a template parameter too) as a
  natural number.
\<close>

section \<open>CountingBloomFilter\<close>

record cbf =
  cbf_data :: "nat \<Rightarrow> u64"
  cbf_arrayLength :: nat


text \<open>
  The body of the probe loop of \<^verbatim>\<open>CountingBloomFilter::Add\<close>:
  \<^verbatim>\<open>index = reduce(a, arrayLength); data[index] += 1ULL << ((a << 2) & 0x3f);\<close>
\<close>

definition cbf_probe_add :: "cbf \<Rightarrow> u32 \<Rightarrow> cbf" where
  "cbf_probe_add s a =
     (let index = unat (reduce a (of_nat (cbf_arrayLength s)))
      in s\<lparr>cbf_data := (cbf_data s)
             (index := cbf_data s index + shl64 1 (uint (push_bit 2 a AND 0x3f)))\<rparr>)"

fun cbf_add_loop :: "nat \<Rightarrow> u32 \<Rightarrow> u32 \<Rightarrow> cbf \<Rightarrow> cbf" where
  "cbf_add_loop 0 a b s = s"
| "cbf_add_loop (Suc i) a b s = cbf_add_loop i (a + b) b (cbf_probe_add s a)"

definition cbf_Add :: "(u64 \<Rightarrow> u64) \<Rightarrow> nat \<Rightarrow> cbf \<Rightarrow> u64 \<Rightarrow> cbf" where
  "cbf_Add hasher k s key =
     (let hash = hasher key; a = ucast (drop_bit 32 hash); b = ucast hash
      in cbf_add_loop k a b s)"

text \<open>The 4-bit counter \<open>j\<close> of a word, as \<^verbatim>\<open>Contain\<close> reads it.\<close>

definition nibble :: "u64 \<Rightarrow> nat \<Rightarrow> u64" where
  "nibble w j = drop_bit (4 * j) w AND 0xf"

text \<open>
  \<^verbatim>\<open>CountingBloomFilter::AddBlock\<close> and \<^verbatim>\<open>AddAll\<close>. The scratch buffer \<^verbatim>\<open>tmp\<close> and the fill
  counts \<^verbatim>\<open>tmpLen\<close> are maps as well. \<^verbatim>\<open>blockShift\<close> is 14.
\<close>

definition blockShift :: nat where
  "blockShift = 14"

definition blockLen :: nat where
  "blockLen = 2 ^ blockShift"

record bulk =
  tmp :: "nat \<Rightarrow> u32"
  tmpLen :: "nat \<Rightarrow> nat"

fun cbf_AddBlock_loop :: "(nat \<Rightarrow> u32) \<Rightarrow> nat \<Rightarrow> nat \<Rightarrow> nat \<Rightarrow> cbf \<Rightarrow> cbf" where
  "cbf_AddBlock_loop t block i 0 s = s"
| "cbf_AddBlock_loop t block i (Suc r) s =
     (let index = t (block * blockLen + i);
          g = unat (signed_drop_bit 4 index);
          s' = s\<lparr>cbf_data := (cbf_data s)
                 (g := cbf_data s g + shl64 1 (uint (push_bit 2 index AND 0x3f)))\<rparr>
      in cbf_AddBlock_loop t block (Suc i) r s')"

definition cbf_AddBlock :: "(nat \<Rightarrow> u32) \<Rightarrow> nat \<Rightarrow> nat \<Rightarrow> cbf \<Rightarrow> cbf" where
  "cbf_AddBlock t block len s = cbf_AddBlock_loop t block 0 len s"

fun cbf_addall_probes :: "nat \<Rightarrow> u32 \<Rightarrow> u32 \<Rightarrow> bulk \<times> cbf \<Rightarrow> bulk \<times> cbf" where
  "cbf_addall_probes 0 a b st = st"
| "cbf_addall_probes (Suc j) a b (bk, s) =
     (let index = unat (reduce a (of_nat (cbf_arrayLength s)));
          block = index div blockLen;
          len = tmpLen bk block;
          bk1 = bk\<lparr>tmp := (tmp bk)(block * blockLen + len := of_nat (index * 16) + (a AND 0xf)),
                   tmpLen := (tmpLen bk)(block := len + 1)\<rparr>;
          st1 = (if len + 1 = blockLen
                 then (bk1\<lparr>tmpLen := (tmpLen bk1)(block := 0)\<rparr>,
                       cbf_AddBlock (tmp bk1) block (len + 1) s)
                 else (bk1, s))
      in cbf_addall_probes j (a + b) b st1)"

definition cbf_addall_key :: "(u64 \<Rightarrow> u64) \<Rightarrow> nat \<Rightarrow> u64 \<Rightarrow> bulk \<times> cbf \<Rightarrow> bulk \<times> cbf" where
  "cbf_addall_key hasher k key st =
     (let hash = hasher key; a = ucast (drop_bit 32 hash); b = ucast hash
      in cbf_addall_probes k a b st)"

definition cbf_AddAll :: "(u64 \<Rightarrow> u64) \<Rightarrow> nat \<Rightarrow> cbf \<Rightarrow> u64 list \<Rightarrow> nat \<Rightarrow> nat \<Rightarrow> cbf" where
  "cbf_AddAll hasher k s keys start end =
     (let blocks = 1 + cbf_arrayLength s div blockLen;
          st0 = (\<lparr> tmp = (\<lambda>_. 0), tmpLen = (\<lambda>_. 0) \<rparr>, s);
          (bk, s1) = fold (\<lambda>i. cbf_addall_key hasher k (keys ! i)) [start..<end] st0
      in fold (\<lambda>block. cbf_AddBlock (tmp bk) block (tmpLen bk block)) [0..<blocks] s1)"

section \<open>SuccinctCountingBloomFilter\<close>

record scbf =
  data :: "nat \<Rightarrow> u64"
  counts :: "nat \<Rightarrow> u64"
  overflow :: "nat \<Rightarrow> u64"
  arrayLength :: nat
  overflowLength :: nat
  nextFreeOverflow :: nat

text \<open>
  The constructor. The loop \<^verbatim>\<open>for (i = 0; i < overflowLength; i += 4) overflow[i] = i + 4\<close>
  threads the free list through the pool; its first argument is the number of iterations.
\<close>

fun init_overflow :: "nat \<Rightarrow> nat \<Rightarrow> (nat \<Rightarrow> u64) \<Rightarrow> (nat \<Rightarrow> u64)" where
  "init_overflow 0 i ov = ov"
| "init_overflow (Suc r) i ov = init_overflow r (i + 4) (ov(i := of_nat (i + 4)))"

definition scbf_new :: "nat \<Rightarrow> nat \<Rightarrow> scbf" where
  "scbf_new bits_per_item n =
     (let bitCount = (n * bits_per_item) mod 2 ^ 64;
          al = ((bitCount + 63) mod 2 ^ 64) div 64;
          ol = 100 + al div 100 * 12
      in \<lparr> data = (\<lambda>_. 0), counts = (\<lambda>_. 0),
           overflow = init_overflow ((ol + 3) div 4) 0 (\<lambda>_. 0),
           arrayLength = al, overflowLength = ol, nextFreeOverflow = 0 \<rparr>)"

text \<open>
  \<^verbatim>\<open>ReadCount(group, bit)\<close>. The parameter \<^verbatim>\<open>bit\<close> is an \<^verbatim>\<open>int\<close> in the source; every caller
  passes a value in \<open>[0, 64)\<close>, and the model takes a natural number.
\<close>

definition ReadCount :: "scbf \<Rightarrow> nat \<Rightarrow> nat \<Rightarrow> int" where
  "ReadCount s grp b =
     (let m = data s grp;
          d = shr64 m (int b) AND 1
      in if d = 0 then 0
         else
           let c = counts s grp
           in if c AND 0x8000000000000000 \<noteq> 0
              then
                (let index = unat (c AND 0x0fffffff);
                     n = overflow s (index + b div 16);
                     n' = shr64 n (4 * int (b mod 16))
                 in uint (n' AND 15))
              else
                (let bitsBefore = bitCount64 (m AND shr64 0xffffffffffffffff (63 - int b));
                     bitPos = select64 c (bitsBefore - 1);
                     y = shl64 (shl64 c (63 - bitPos)) 1 OR shl64 1 (63 - bitPos)
                 in numberOfLeadingZeros64 y + 1))"

text \<open>
  The loop of \<^verbatim>\<open>Increment\<close> that copies the inline counters into the freshly allocated slot:
  \<^verbatim>\<open>for (i = 0; i < 64; i++) { n = ReadCount(group, i); overflow[index + i / 16] += n * (1ULL << (i * 4)); }\<close>
\<close>

fun promote_loop :: "nat \<Rightarrow> nat \<Rightarrow> nat \<Rightarrow> nat \<Rightarrow> scbf \<Rightarrow> scbf" where
  "promote_loop 0 i grp index s = s"
| "promote_loop (Suc r) i grp index s =
     (let n = ReadCount s grp i;
          w = index + i div 16
      in promote_loop r (Suc i) grp index
           (s\<lparr>overflow := (overflow s)(w := overflow s w + of_int n * shl64 1 (int i * 4))\<rparr>))"

text \<open>The common tail of the overflow branch: bump the lane and set the presence bit.\<close>

definition bump_lane :: "scbf \<Rightarrow> nat \<Rightarrow> nat \<Rightarrow> nat \<Rightarrow> scbf" where
  "bump_lane s grp b index =
     (let w = index + b div 16;
          s1 = s\<lparr>overflow := (overflow s)(w := overflow s w + shl64 1 (int b * 4))\<rparr>
      in s1\<lparr>data := (data s1)(grp := data s1 grp OR shl64 1 (int b))\<rparr>)"

definition Increment :: "scbf \<Rightarrow> nat \<Rightarrow> nat \<Rightarrow> scbf" where
  "Increment s grp b =
     (let m = data s grp;
          c = counts s grp
      in if c AND 0xc000000000000000 \<noteq> 0
         then
           (if c AND 0x8000000000000000 = 0
            then
              (let index = nextFreeOverflow s
               in if index \<ge> overflowLength s
                  then s\<lparr>data := (data s)(grp := data s grp OR shl64 1 (int b))\<rparr>
                  else
                    let s1 = s\<lparr>nextFreeOverflow := unat (overflow s index)\<rparr>;
                        s2 = s1\<lparr>overflow := (overflow s1)
                                 (index := 0, index + 1 := 0, index + 2 := 0, index + 3 := 0)\<rparr>;
                        s3 = promote_loop 64 0 grp index s2;
                        count = 64;
                        c' = 0x8000000000000000 OR shl64 count 32 OR of_nat index;
                        s4 = s3\<lparr>counts := (counts s3)(grp := c')\<rparr>
                    in bump_lane s4 grp b index)
            else
              (let index = unat (c AND 0x0fffffff);
                   c' = c + shl64 1 32;
                   s1 = s\<lparr>counts := (counts s)(grp := c')\<rparr>
               in bump_lane s1 grp b index))
         else
           (let s1 = s\<lparr>data := (data s)(grp := data s grp OR shl64 1 (int b))\<rparr>;
                bitsBefore = bitCount64 (m AND shr64 0xffffffffffffffff (63 - int b));
                before = select64 (shl64 c 1 OR 1) bitsBefore;
                d = shr64 m (int b) AND 1;
                insertAt = before - uint d;
                mask = shl64 1 insertAt - 1;
                left = c AND NOT mask;
                right = c AND mask;
                c' = shl64 left 1 OR shl64 (1 XOR d) insertAt OR right
            in s1\<lparr>counts := (counts s1)(grp := c')\<rparr>))"

text \<open>
  The loop of \<^verbatim>\<open>Decrement\<close> that rebuilds the inline word from the lanes, for \<open>j\<close> from 63
  down to 0. The first argument is the number of iterations left, which is \<open>j + 1\<close>.
\<close>

fun demote_loop :: "nat \<Rightarrow> nat \<Rightarrow> (nat \<Rightarrow> u64) \<Rightarrow> u64 \<Rightarrow> u64" where
  "demote_loop 0 index ov c2 = c2"
| "demote_loop (Suc j) index ov c2 =
     (let cj = uint (shr64 (ov (index + j div 16)) (4 * int j) AND 0xf)
      in demote_loop j index ov
           (if cj > 0 then shl64 (shl64 c2 1 OR 1) (cj - 1) else c2))"

definition Decrement :: "scbf \<Rightarrow> nat \<Rightarrow> nat \<Rightarrow> scbf" where
  "Decrement s grp b =
     (let m = data s grp;
          c = counts s grp
      in if c AND 0x8000000000000000 \<noteq> 0
         then
           (let index = unat (c AND 0x0fffffff);
                count = unat (shr64 c 32 AND 0x0fffffff);
                c' = c - shl64 1 32;
                s1 = s\<lparr>counts := (counts s)(grp := c')\<rparr>;
                w = index + b div 16;
                n = overflow s1 w;
                s2 = s1\<lparr>overflow := (overflow s1)(w := n - shl64 1 (int b * 4))\<rparr>;
                n' = shr64 n (4 * int (b mod 16));
                s3 = (if n' AND 0xf = 1
                      then s2\<lparr>data := (data s2)(grp := data s2 grp AND NOT (shl64 1 (int b)))\<rparr>
                      else s2)
            in if count < 64
               then
                 (let c2 = demote_loop 64 index (overflow s3) 0;
                      s4 = s3\<lparr>counts := (counts s3)(grp := c2)\<rparr>;
                      s5 = s4\<lparr>overflow := (overflow s4)(index := of_nat (nextFreeOverflow s4))\<rparr>
                  in s5\<lparr>nextFreeOverflow := index\<rparr>)
               else s3)
         else
           (let bitsBefore = bitCount64 (m AND shr64 0xffffffffffffffff (63 - int b));
                before = select64 (shl64 c 1 OR 1) bitsBefore - 1;
                removeAt = max 0 (before - 1);
                mask = shl64 1 removeAt - 1;
                left = shr64 c 1 AND NOT mask;
                right = c AND mask;
                s1 = s\<lparr>counts := (counts s)(grp := left OR right)\<rparr>;
                removed = shr64 c removeAt AND 1
            in s1\<lparr>data := (data s1)(grp := m AND NOT (shl64 removed (int b)))\<rparr>))"

text \<open>\<^verbatim>\<open>Add\<close>, \<^verbatim>\<open>Remove\<close> and \<^verbatim>\<open>Contain\<close>: \<open>k\<close> probes \<open>a, a + b, a + 2b, ...\<close>.\<close>

fun add_loop :: "nat \<Rightarrow> u32 \<Rightarrow> u32 \<Rightarrow> scbf \<Rightarrow> scbf" where
  "add_loop 0 a b s = s"
| "add_loop (Suc i) a b s =
     (let grp = unat (reduce a (of_nat (arrayLength s)))
      in add_loop i (a + b) b (Increment s grp (unat (a AND 63))))"


fun remove_loop :: "nat \<Rightarrow> u32 \<Rightarrow> u32 \<Rightarrow> scbf \<Rightarrow> scbf" where
  "remove_loop 0 a b s = s"
| "remove_loop (Suc i) a b s =
     (let grp = unat (reduce a (of_nat (arrayLength s)))
      in remove_loop i (a + b) b (Decrement s grp (unat (a AND 63))))"

definition Remove :: "(u64 \<Rightarrow> u64) \<Rightarrow> nat \<Rightarrow> scbf \<Rightarrow> u64 \<Rightarrow> scbf" where
  "Remove hasher k s key =
     (let hash = hasher key; a = ucast (drop_bit 32 hash); b = ucast hash
      in remove_loop k a b s)"



text \<open>\<^verbatim>\<open>SuccinctCountingBloomFilter::AddBlock\<close> and \<^verbatim>\<open>AddAll\<close>.\<close>

fun AddBlock_loop :: "(nat \<Rightarrow> u32) \<Rightarrow> nat \<Rightarrow> nat \<Rightarrow> nat \<Rightarrow> scbf \<Rightarrow> scbf" where
  "AddBlock_loop t block i 0 s = s"
| "AddBlock_loop t block i (Suc r) s =
     (let index = t (block * blockLen + i);
          grp = unat (drop_bit 6 index)
      in AddBlock_loop t block (Suc i) r (Increment s grp (unat (index AND 63))))"

definition AddBlock :: "(nat \<Rightarrow> u32) \<Rightarrow> nat \<Rightarrow> nat \<Rightarrow> scbf \<Rightarrow> scbf" where
  "AddBlock t block len s = AddBlock_loop t block 0 len s"

fun addall_probes :: "nat \<Rightarrow> u32 \<Rightarrow> u32 \<Rightarrow> bulk \<times> scbf \<Rightarrow> bulk \<times> scbf" where
  "addall_probes 0 a b st = st"
| "addall_probes (Suc j) a b (bk, s) =
     (let index = unat (reduce a (of_nat (arrayLength s)));
          block = index div blockLen;
          len = tmpLen bk block;
          bk1 = bk\<lparr>tmp := (tmp bk)(block * blockLen + len := of_nat (index * 64) + (a AND 63)),
                   tmpLen := (tmpLen bk)(block := len + 1)\<rparr>;
          st1 = (if len + 1 = blockLen
                 then (bk1\<lparr>tmpLen := (tmpLen bk1)(block := 0)\<rparr>,
                       AddBlock (tmp bk1) block (len + 1) s)
                 else (bk1, s))
      in addall_probes j (a + b) b st1)"

definition addall_key :: "(u64 \<Rightarrow> u64) \<Rightarrow> nat \<Rightarrow> u64 \<Rightarrow> bulk \<times> scbf \<Rightarrow> bulk \<times> scbf" where
  "addall_key hasher k key st =
     (let hash = hasher key; a = ucast (drop_bit 32 hash); b = ucast hash
      in addall_probes k a b st)"

definition AddAll :: "(u64 \<Rightarrow> u64) \<Rightarrow> nat \<Rightarrow> scbf \<Rightarrow> u64 list \<Rightarrow> nat \<Rightarrow> nat \<Rightarrow> scbf" where
  "AddAll hasher k s keys start end =
     (let blocks = 1 + arrayLength s div blockLen;
          st0 = (\<lparr> tmp = (\<lambda>_. 0), tmpLen = (\<lambda>_. 0) \<rparr>, s);
          (bk, s1) = fold (\<lambda>i. addall_key hasher k (keys ! i)) [start..<end] st0
      in fold (\<lambda>block. AddBlock (tmp bk) block (tmpLen bk block)) [0..<blocks] s1)"

section \<open>SuccinctCountingBlockedBloomFilter\<close>

record blocked =
  b_data :: "nat \<Rightarrow> u64"
  b_counts :: "nat \<Rightarrow> u64"
  b_overflow :: "nat \<Rightarrow> u64"
  b_overflowLength :: nat
  b_nextFreeOverflow :: nat

text \<open>The rebuilding loop of the blocked filter's \<^verbatim>\<open>Decrement\<close>, over 8-bit lanes.\<close>

fun b_demote_loop :: "nat \<Rightarrow> nat \<Rightarrow> (nat \<Rightarrow> u64) \<Rightarrow> u64 \<Rightarrow> u64" where
  "b_demote_loop 0 index ov c2 = c2"
| "b_demote_loop (Suc j) index ov c2 =
     (let cj = uint (shr64 (ov (index + j div 8)) (8 * int j) AND 0xff)
      in b_demote_loop j index ov
           (if cj > 0 then shl64 (shl64 c2 1 OR 1) (cj - 1) else c2))"

definition b_Decrement :: "blocked \<Rightarrow> nat \<Rightarrow> nat \<Rightarrow> blocked" where
  "b_Decrement s grp b =
     (let m = b_data s grp;
          c = b_counts s grp
      in if c AND 0x8000000000000000 \<noteq> 0
         then
           (let index = unat (c AND 0x0fffffff);
                count = unat (shr64 c 32 AND 0x0fffffff);
                c' = c - shl64 1 32;
                s1 = s\<lparr>b_counts := (b_counts s)(grp := c')\<rparr>;
                w = index + b div 8;
                n = b_overflow s1 w;
                s2 = s1\<lparr>b_overflow := (b_overflow s1)(w := n - shl64 1 (int b * 8))\<rparr>;
                n' = shr64 n (8 * int (b mod 16));
                s3 = (if n' AND 0xff = 1
                      then s2\<lparr>b_data := (b_data s2)(grp := b_data s2 grp AND NOT (shl64 1 (int b)))\<rparr>
                      else s2)
            in if count < 64
               then
                 (let c2 = b_demote_loop 64 index (b_overflow s3) 0;
                      s4 = s3\<lparr>b_counts := (b_counts s3)(grp := c2)\<rparr>;
                      s5 = s4\<lparr>b_overflow := (b_overflow s4)(index := of_nat (b_nextFreeOverflow s4))\<rparr>
                  in s5\<lparr>b_nextFreeOverflow := index\<rparr>)
               else s3)
         else
           (let bitsBefore = bitCount64 (m AND shr64 0xffffffffffffffff (63 - int b));
                before = select64 (shl64 c 1 OR 1) bitsBefore - 1;
                removeAt = max 0 (before - 1);
                mask = shl64 1 removeAt - 1;
                left = shr64 c 1 AND NOT mask;
                right = c AND mask;
                s1 = s\<lparr>b_counts := (b_counts s)(grp := left OR right)\<rparr>;
                removed = shr64 c removeAt AND 1
            in s1\<lparr>b_data := (b_data s1)(grp := m AND NOT (shl64 removed (int b)))\<rparr>))"

section \<open>Notions used in the statements\<close>

text \<open>\<open>rank x p\<close> is the number of set bits of \<open>x\<close> strictly below position \<open>p\<close>.\<close>

definition rank :: "u64 \<Rightarrow> nat \<Rightarrow> nat" where
  "rank x p = length (filter (bit x) [0..<p])"

text \<open>
  The 8-bit lane of bit \<open>b\<close> in the overflow slot of a promoted group of the blocked filter.
  \<^verbatim>\<open>Increment\<close> of the blocked filter counts bit \<open>b\<close> by
  \<^verbatim>\<open>overflow[index + bit / 8] += (1ULL << (bit * 8))\<close>: the lane is byte \<open>b mod 8\<close> of word
  \<open>index + b div 8\<close>, where \<open>index\<close> is the low 28 bits of the header \<^verbatim>\<open>counts[group]\<close>.
\<close>

definition b_lane :: "blocked \<Rightarrow> nat \<Rightarrow> nat \<Rightarrow> u64" where
  "b_lane s grp b =
     drop_bit (8 * (b mod 8)) (b_overflow s (unat (b_counts s grp AND 0x0fffffff) + b div 8)) AND 0xff"

text \<open>
  Sequences of \<^verbatim>\<open>Increment\<close> and \<^verbatim>\<open>Decrement\<close> calls on a SuccinctCountingBloomFilter, and the
  count of every position \<open>(group, bit)\<close> that such a sequence leaves behind: the number of
  increments minus the number of decrements applied to the position.
\<close>

datatype op = Inc nat nat | Dec nat nat

fun apply_op :: "scbf \<Rightarrow> op \<Rightarrow> scbf" where
  "apply_op s (Inc g b) = Increment s g b"
| "apply_op s (Dec g b) = Decrement s g b"

definition run :: "scbf \<Rightarrow> op list \<Rightarrow> scbf" where
  "run s ops = foldl apply_op s ops"

fun count_op :: "(nat \<Rightarrow> nat \<Rightarrow> nat) \<Rightarrow> op \<Rightarrow> (nat \<Rightarrow> nat \<Rightarrow> nat)" where
  "count_op cnt (Inc g b) = cnt(g := (cnt g)(b := cnt g b + 1))"
| "count_op cnt (Dec g b) = cnt(g := (cnt g)(b := cnt g b - 1))"

definition counts_of :: "op list \<Rightarrow> nat \<Rightarrow> nat \<Rightarrow> nat" where
  "counts_of ops = foldl count_op (\<lambda>_ _. 0) ops"

text \<open>
  \<open>exhausted s g\<close>: an \<^verbatim>\<open>Increment\<close> on group \<open>g\<close> in state \<open>s\<close> takes the branch that prints
  \<^verbatim>\<open>ERROR: overflow too small\<close> (the group has to be promoted and the free list is empty).
\<close>

definition exhausted :: "scbf \<Rightarrow> nat \<Rightarrow> bool" where
  "exhausted s g =
     (counts s g AND 0xc000000000000000 \<noteq> 0 \<and> counts s g AND 0x8000000000000000 = 0
      \<and> nextFreeOverflow s \<ge> overflowLength s)"

text \<open>
  \<open>admissible s cnt ops\<close>: started in state \<open>s\<close>, where the positions hold the counts \<open>cnt\<close>,
  the sequence \<open>ops\<close> stays inside the filter (groups below \<^verbatim>\<open>arrayLength\<close>, bits below 64),
  never decrements a position whose count is zero, never takes a count beyond 15 (the
  largest value of a 4-bit overflow lane), and never meets an exhausted overflow pool.
\<close>

fun admissible :: "scbf \<Rightarrow> (nat \<Rightarrow> nat \<Rightarrow> nat) \<Rightarrow> op list \<Rightarrow> bool" where
  "admissible s cnt [] = True"
| "admissible s cnt (Inc g b # ops) =
     (g < arrayLength s \<and> b < 64 \<and> cnt g b < 15 \<and> \<not> exhausted s g
      \<and> admissible (Increment s g b) (count_op cnt (Inc g b)) ops)"
| "admissible s cnt (Dec g b # ops) =
     (g < arrayLength s \<and> b < 64 \<and> 0 < cnt g b
      \<and> admissible (Decrement s g b) (count_op cnt (Dec g b)) ops)"

text \<open>The fields of a promoted group's header, as \<^verbatim>\<open>Increment\<close> and \<^verbatim>\<open>Decrement\<close> read them.\<close>

definition promoted :: "u64 \<Rightarrow> bool" where
  "promoted c = (c AND 0x8000000000000000 \<noteq> 0)"

definition slot_index :: "u64 \<Rightarrow> nat" where
  "slot_index c = unat (c AND 0x0fffffff)"

definition total_count :: "u64 \<Rightarrow> nat" where
  "total_count c = unat (shr64 c 32 AND 0x0fffffff)"

text \<open>
  The free list of the overflow pool: \<open>chain ov len h xs\<close> holds when following the links
  from the head \<open>h\<close> visits exactly the slots \<open>xs\<close>, in this order, and then reaches an index
  at or beyond the length of the pool. A slot is a 4-word span that starts at a multiple
  of 4 inside the pool.
\<close>

fun chain :: "(nat \<Rightarrow> u64) \<Rightarrow> nat \<Rightarrow> nat \<Rightarrow> nat list \<Rightarrow> bool" where
  "chain ov len h [] = (len \<le> h)"
| "chain ov len h (x # xs) = (h = x \<and> x < len \<and> chain ov len (unat (ov x)) xs)"

definition is_slot :: "nat \<Rightarrow> nat \<Rightarrow> bool" where
  "is_slot len x = (4 dvd x \<and> x + 4 \<le> len)"

section \<open>The representation of a group\<close>

text \<open>
  \<open>psum f i\<close> is the sum of the counts of the bits below \<open>i\<close>. In the inline form of a group
  with counts \<open>f\<close>, the counter word has a 1 exactly at the positions \<open>psum f (i + 1) - 1\<close> of
  the bits \<open>i\<close> with a positive count (the terminators of the unary runs), and the presence
  word has a 1 exactly at these bits. The total is at most 63.
\<close>

definition psum :: "(nat \<Rightarrow> nat) \<Rightarrow> nat \<Rightarrow> nat" where
  "psum f i = sum f {..<i}"

definition inline_rep :: "u64 \<Rightarrow> u64 \<Rightarrow> (nat \<Rightarrow> nat) \<Rightarrow> bool" where
  "inline_rep m c f =
     ((\<forall>i<64. bit m i = (0 < f i))
      \<and> (\<forall>q<64. bit c q = (\<exists>i<64. 0 < f i \<and> psum f (Suc i) = Suc q))
      \<and> psum f 64 \<le> 63)"

text \<open>
  The promoted form: the header holds the top bit, the total in bits 32 and up and the slot
  index in the low 28 bits (\<^verbatim>\<open>c = 0x8000000000000000ULL | (count << 32) | index\<close>); lane
  \<open>i mod 16\<close> of word \<open>i div 16\<close> of the slot holds the count of bit \<open>i\<close>. A promoted group
  has a total of at least 63.
\<close>

definition header :: "nat \<Rightarrow> nat \<Rightarrow> u64" where
  "header tot index = 0x8000000000000000 OR push_bit 32 (of_nat tot) OR of_nat index"

definition prom_rep :: "u64 \<Rightarrow> u64 \<Rightarrow> (nat \<Rightarrow> u64) \<Rightarrow> (nat \<Rightarrow> nat) \<Rightarrow> bool" where
  "prom_rep m c ov f =
     ((\<forall>i<64. bit m i = (0 < f i))
      \<and> c = header (psum f 64) (slot_index c)
      \<and> 63 \<le> psum f 64
      \<and> (\<forall>i<64. unat (nibble (ov (slot_index c + i div 16)) (i mod 16)) = f i))"

text \<open>
  The invariant of the whole filter, for the counts \<open>cnt\<close> and the free list \<open>fl\<close>: every
  group represents its counts in the inline or in the promoted form, promoted groups own
  distinct slots, the free list is a chain of distinct slots that no group owns, and every
  slot is owned or free.
\<close>

definition group_ok :: "scbf \<Rightarrow> (nat \<Rightarrow> nat) \<Rightarrow> nat \<Rightarrow> bool" where
  "group_ok s f g =
     (if promoted (counts s g)
      then prom_rep (data s g) (counts s g) (overflow s) f
           \<and> is_slot (overflowLength s) (slot_index (counts s g))
      else inline_rep (data s g) (counts s g) f)"

definition owned :: "scbf \<Rightarrow> nat \<Rightarrow> bool" where
  "owned s x = (\<exists>g<arrayLength s. promoted (counts s g) \<and> slot_index (counts s g) = x)"

definition Inv :: "scbf \<Rightarrow> (nat \<Rightarrow> nat \<Rightarrow> nat) \<Rightarrow> nat list \<Rightarrow> bool" where
  "Inv s cnt fl =
     (overflowLength s \<le> 2 ^ 28 \<and> nextFreeOverflow s < 2 ^ 64
      \<and> (\<forall>g<arrayLength s. \<forall>i<64. cnt g i \<le> 15)
      \<and> (\<forall>g<arrayLength s. group_ok s (cnt g) g)
      \<and> (\<forall>g<arrayLength s. \<forall>h<arrayLength s.
            promoted (counts s g) \<and> promoted (counts s h)
            \<and> slot_index (counts s g) = slot_index (counts s h) \<longrightarrow> g = h)
      \<and> chain (overflow s) (overflowLength s) (nextFreeOverflow s) fl \<and> distinct fl
      \<and> (\<forall>x\<in>set fl. is_slot (overflowLength s) x \<and> \<not> owned s x)
      \<and> (\<forall>x. is_slot (overflowLength s) x \<longrightarrow> x \<in> set fl \<or> owned s x))"

section \<open>Bit primitives: \<^verbatim>\<open>select64\<close>\<close>

lemma rank_0 [simp]: "rank x 0 = 0"
  by (simp add: rank_def)

lemma rank_Suc: "rank x (Suc p) = rank x p + (if bit x p then 1 else 0)"
  by (simp add: rank_def)

lemma rank_shift: "rank x (Suc p) = (if bit x 0 then 1 else 0) + rank (drop_bit 1 x) p"
proof -
  have "[0..<Suc p] = 0 # map Suc [0..<p]"
    by (simp add: upt_conv_Cons map_Suc_upt del: upt_Suc)
  moreover have "bit x \<circ> Suc = bit (drop_bit 1 x)"
    by (auto simp: bit_drop_bit_eq fun_eq_iff)
  ultimately show ?thesis
    by (simp add: rank_def filter_map del: upt_Suc)
qed

lemma and_1_eq_1_iff: "(x AND 1 = 1) = bit x 0" for x :: u64
  by (simp add: and_one_eq bit_0 mod_2_eq_odd)

lemma select64_loop_none:
  "int (rank x r) \<le> n \<Longrightarrow> select64_loop r x n i = - 1"
proof (induction r arbitrary: x n i)
  case 0
  then show ?case by simp
next
  case (Suc r)
  show ?case
  proof (cases "bit x 0")
    case True
    with Suc.prems have "int (rank (drop_bit 1 x) r) \<le> n - 1" and "n \<noteq> 0"
      by (simp_all add: rank_shift)
    with True Suc.IH show ?thesis by (simp add: and_1_eq_1_iff)
  next
    case False
    with Suc.prems have "int (rank (drop_bit 1 x) r) \<le> n"
      by (simp add: rank_shift)
    with False Suc.IH show ?thesis by (simp add: and_1_eq_1_iff)
  qed
qed

lemma select64_loop_found:
  "p < r \<Longrightarrow> bit x p \<Longrightarrow> int (rank x p) = n \<Longrightarrow> select64_loop r x n i = i + int p"
proof (induction r arbitrary: x n i p)
  case 0
  then show ?case by simp
next
  case (Suc r)
  show ?case
  proof (cases p)
    case 0
    with Suc.prems show ?thesis by (simp add: and_1_eq_1_iff)
  next
    case (Suc p')
    with Suc.prems have b: "bit (drop_bit 1 x) p'" and lt: "p' < r"
      by (simp_all add: bit_drop_bit_eq)
    show ?thesis
    proof (cases "bit x 0")
      case True
      from Suc.prems Suc have "int (rank (drop_bit 1 x) p') = n - 1" and "n \<noteq> 0"
        using True by (simp_all add: rank_shift)
      with Suc.IH [OF lt b] True Suc show ?thesis
        by (simp add: and_1_eq_1_iff)
    next
      case False
      from Suc.prems Suc have "int (rank (drop_bit 1 x) p') = n"
        using False by (simp add: rank_shift)
      with Suc.IH [OF lt b] False Suc show ?thesis
        by (simp add: and_1_eq_1_iff)
    qed
  qed
qed

text \<open>
  Claim C10. The portable branch of \<^verbatim>\<open>select64(x, n)\<close> returns \<open>-1\<close> whenever \<open>x\<close> has at
  most \<open>n\<close> set bits, for every 64-bit \<open>x\<close> and every \<open>n\<close> in \<open>[0, 64)\<close>: the loop runs to
  its end and the function returns the value after the loop.
\<close>

theorem select64_fallback_not_found:
  "0 \<le> n \<Longrightarrow> n < 64 \<Longrightarrow> bitCount64 x \<le> n \<Longrightarrow> select64 x n = - 1"
  by (simp add: select64_def bitCount64_def select64_loop_none rank_def)

theorem select64_fallback_not_found_witness:
  "(0::int) \<le> 2 \<and> (2::int) < 64 \<and> bitCount64 5 \<le> 2 \<and> select64 5 2 = - 1"
proof -
  have h: "bitCount64 5 \<le> 2" by code_simp
  show ?thesis using h select64_fallback_not_found [of 2 5] by simp
qed

section \<open>CountingBloomFilter: counters at 15\<close>

lemma nibble_take_bit: "nibble w j = take_bit 4 (drop_bit (4 * j) w)"
  by (simp add: nibble_def take_bit_eq_mask mask_eq_exp_minus_1)

lemma unat_nibble: "unat (nibble w j) = (unat w div 16 ^ j) mod 16"
proof -
  have "unat (nibble w j) = take_bit 4 (drop_bit (4 * j) (unat w))"
    by (simp only: nibble_take_bit unsigned_take_bit_eq unat_drop_bit_eq)
  then show ?thesis
    by (simp add: take_bit_eq_mod drop_bit_eq_div power_mult)
qed

lemma div_mod_pow:
  fixes X :: nat
  assumes "j < 16"
  shows "(X mod 2 ^ 64) div 16 ^ j mod 16 = X div 16 ^ j mod 16"
proof -
  have e: "(2::nat) ^ 64 = 16 ^ j * 16 ^ (16 - j)"
    using assms by (simp flip: power_add)
  have "(X mod 2 ^ 64) div 16 ^ j = (X div 16 ^ j) mod 16 ^ (16 - j)"
    unfolding e by (simp add: mod_mult2_eq)
  moreover have "(16::nat) dvd 16 ^ (16 - j)"
    using assms by simp
  ultimately show ?thesis
    by (simp add: mod_mod_cancel)
qed

lemma nat_carry_self:
  fixes W :: nat
  assumes "(W div 16 ^ j) mod 16 = 15" "j < 16"
  shows "((W + 16 ^ j) mod 2 ^ 64) div 16 ^ j mod 16 = 0"
proof -
  have "(W + 16 ^ j) div 16 ^ j = W div 16 ^ j + 1"
    by (simp add: div_add_self2)
  then have "(W + 16 ^ j) div 16 ^ j mod 16 = 0"
    using assms(1) by (simp add: mod_Suc)
  then show ?thesis using assms(2) div_mod_pow [of j "W + 16 ^ j"] by simp
qed









lemma unat_add_pow:
  fixes w :: u64
  assumes "j < 16"
  shows "unat (w + push_bit (4 * j) 1) = (unat w + 16 ^ j) mod 2 ^ 64"
proof -
  have "unat (push_bit (4 * j) 1 :: u64) = take_bit 64 (push_bit (4 * j) (unat (1 :: u64)))"
    by (subst unsigned_push_bit_eq) simp
  also have "\<dots> = take_bit 64 ((2::nat) ^ (4 * j))"
    by (simp add: push_bit_eq_mult)
  also have "\<dots> = 2 ^ (4 * j)"
  proof -
    have "(2::nat) ^ (4 * j) < 2 ^ 64"
      using assms by (intro power_strict_increasing) simp_all
    then show ?thesis by (rule take_bit_nat_eq_self)
  qed
  also have "\<dots> = (16::nat) ^ j"
    by (simp add: power_mult)
  finally have "unat (push_bit (4 * j) 1 :: u64) = 16 ^ j" .
  then show ?thesis
    by (simp add: unat_word_ariths)
qed









section \<open>SuccinctCountingBloomFilter: the presence plane under \<^verbatim>\<open>Add\<close>\<close>

lemma promote_loop_fields [simp]:
  "data (promote_loop r i grp index s) = data s"
  "counts (promote_loop r i grp index s) = counts s"
  "arrayLength (promote_loop r i grp index s) = arrayLength s"
  "overflowLength (promote_loop r i grp index s) = overflowLength s"
  "nextFreeOverflow (promote_loop r i grp index s) = nextFreeOverflow s"
  by (induction r arbitrary: i s; simp add: Let_def)+

lemma bump_lane_fields [simp]:
  "data (bump_lane s grp b index) = (data s)(grp := data s grp OR shl64 1 (int b))"
  "counts (bump_lane s grp b index) = counts s"
  "arrayLength (bump_lane s grp b index) = arrayLength s"
  "overflowLength (bump_lane s grp b index) = overflowLength s"
  "nextFreeOverflow (bump_lane s grp b index) = nextFreeOverflow s"
  by (simp_all add: bump_lane_def Let_def)

lemma Increment_data:
  "data (Increment s grp b) = (data s)(grp := data s grp OR shl64 1 (int b))"
  by (simp add: Increment_def Let_def)

lemma Increment_arrayLength [simp]:
  "arrayLength (Increment s grp b) = arrayLength s"
  by (simp add: Increment_def Let_def)


lemma bit_shl64_1: "b < 64 \<Longrightarrow> bit (shl64 1 (int b)) n = (n = b)"
  by (auto simp: shl64_def bit_simps)



lemma add_loop_arrayLength [simp]: "arrayLength (add_loop k a b s) = arrayLength s"
  by (induction k arbitrary: a s) (simp_all add: Let_def)





section \<open>SuccinctCountingBlockedBloomFilter: \<^verbatim>\<open>Decrement\<close> of a promoted group\<close>

lemma lane_shift: "nat ((8 * int (b mod 16)) mod 64) = 8 * (b mod 8)"
proof -
  have "(8 * (b mod 16)) mod (8 * 8) = 8 * ((b mod 16) mod 8)"
    by (rule mult_mod_right [symmetric])
  also have "(b mod 16) mod 8 = b mod 8"
    by (simp add: mod_mod_cancel)
  finally have "(8 * (b mod 16)) mod 64 = 8 * (b mod 8)"
    by simp
  then have "int ((8 * (b mod 16)) mod 64) = int (8 * (b mod 8))"
    by (rule arg_cong)
  then have "(8 * int (b mod 16)) mod 64 = int (8 * (b mod 8))"
    by (simp add: zmod_int)
  then show ?thesis
    by (simp only: nat_int)
qed

lemma shl64_1_push_bit: "b < 64 \<Longrightarrow> shl64 1 (int b) = push_bit b 1"
  by (simp add: shl64_def)

text \<open>
  Claim C9. In the SuccinctCountingBlockedBloomFilter, for every bit in \<open>[0, 64)\<close>, when
  \<^verbatim>\<open>Decrement\<close> targets a promoted group, the presence bit of that bit is cleared if and only
  if the bit's 8-bit overflow lane held 1 before the decrement; the other presence bits of
  the group keep their values. The source reads the lane with \<^verbatim>\<open>n >>= 8 * (bit & 0xf)\<close>;
  with the shift count taken modulo 64 this is byte \<open>bit mod 8\<close> of the word.
\<close>

theorem b_Decrement_presence_bit:
  assumes "b < 64" and "b_counts s grp AND 0x8000000000000000 \<noteq> 0"
  shows "b_data (b_Decrement s grp b) grp =
           (if b_lane s grp b = 1 then b_data s grp AND NOT (push_bit b 1) else b_data s grp)"
  using assms
  by (simp add: b_Decrement_def Let_def b_lane_def shr64_def lane_shift shl64_1_push_bit)


theorem b_Decrement_presence_bit_witness:
  "(8::nat) < 64
   \<and> b_counts \<lparr> b_data = (\<lambda>_. 0)(0 := 0x100), b_counts = (\<lambda>_. 0)(0 := 0x8000004000000000),
                  b_overflow = (\<lambda>_. 0)(1 := 1), b_overflowLength = 100,
                  b_nextFreeOverflow = 8 \<rparr> 0 AND 0x8000000000000000 \<noteq> 0
   \<and> b_lane \<lparr> b_data = (\<lambda>_. 0)(0 := 0x100), b_counts = (\<lambda>_. 0)(0 := 0x8000004000000000),
                b_overflow = (\<lambda>_. 0)(1 := 1), b_overflowLength = 100,
                b_nextFreeOverflow = 8 \<rparr> 0 8 = 1
   \<and> b_data (b_Decrement \<lparr> b_data = (\<lambda>_. 0)(0 := 0x100), b_counts = (\<lambda>_. 0)(0 := 0x8000004000000000),
                b_overflow = (\<lambda>_. 0)(1 := 1), b_overflowLength = 100,
                b_nextFreeOverflow = 8 \<rparr> 0 8) 0 = 0"
proof -
  let ?s = "\<lparr> b_data = (\<lambda>_. 0)(0 := 0x100), b_counts = (\<lambda>_. 0)(0 := 0x8000004000000000),
              b_overflow = (\<lambda>_. 0)(1 := 1), b_overflowLength = 100,
              b_nextFreeOverflow = 8 \<rparr>"
  have a: "(8::nat) < 64" by simp
  have b: "b_counts ?s 0 AND 0x8000000000000000 \<noteq> 0" by simp
  have c: "b_lane ?s 0 8 = 1" by (simp add: b_lane_def)
  from b_Decrement_presence_bit [OF a b] a b c show ?thesis
    by simp
qed

section \<open>Bit primitives: masks, population count, leading zeros\<close>

lemma all_ones: "(0xffffffffffffffff :: u64) = - 1"
  by simp

lemma nat_63_minus: "b < 64 \<Longrightarrow> nat ((63 - int b) mod 64) = 63 - b"
  by (simp add: nat_diff_distrib')

lemma mask_shr: "b < 64 \<Longrightarrow> shr64 0xffffffffffffffff (63 - int b) = mask (Suc b)"
  unfolding shr64_def all_ones nat_63_minus
  by (rule bit_word_eqI) (auto simp: bit_simps)

lemma rank_take_bit: "n \<le> 64 \<Longrightarrow> rank (m AND mask n) 64 = rank m n"
proof -
  assume n: "n \<le> 64"
  have split: "[0..<64] = [0..<n] @ [n..<64]"
    using n by (metis le_add_diff_inverse upt_add_eq_append zero_le)
  have "filter (bit (m AND mask n)) [0..<n] = filter (bit m) [0..<n]"
    using n by (intro filter_cong) (auto simp: bit_simps)
  moreover have "filter (bit (m AND mask n)) [n..<64] = []"
    by (auto simp: filter_empty_conv bit_simps)
  ultimately show ?thesis
    unfolding rank_def split by simp
qed

lemma bitsBefore_eq:
  "b < 64 \<Longrightarrow> bitCount64 (m AND shr64 0xffffffffffffffff (63 - int b)) = int (rank m (Suc b))"
  by (simp add: mask_shr bitCount64_def rank_take_bit flip: rank_def)

lemma select64_eq:
  "p < 64 \<Longrightarrow> bit x p \<Longrightarrow> int (rank x p) = n \<Longrightarrow> select64 x n = int p"
  by (simp add: select64_def select64_loop_found)

lemma takeWhile_upt:
  assumes "k \<le> n" and "\<forall>j<k. P j" and "k < n \<longrightarrow> \<not> P k"
  shows "takeWhile P [0..<n] = [0..<k]"
proof -
  have split: "[0..<n] = [0..<k] @ [k..<n]"
    using assms(1) by (metis le_add_diff_inverse upt_add_eq_append zero_le)
  have "takeWhile P [k..<n] = []"
    using assms(3) by (cases "k < n") (simp_all add: upt_conv_Cons)
  moreover have "takeWhile P ([0..<k] @ [k..<n]) = [0..<k] @ takeWhile P [k..<n]"
    using assms(2) by (intro takeWhile_append2) simp
  ultimately show ?thesis
    by (simp only: split append_Nil2)
qed

lemma rev_upt_64: "rev [0..<64] = map (\<lambda>j. 63 - j) [0..<64]"
  by (rule nth_equalityI) (simp_all add: rev_nth)

lemma clz_eq:
  assumes "k < 64" and "bit y (63 - k)" and "\<forall>j<k. \<not> bit y (63 - j)"
  shows "numberOfLeadingZeros64 y = int k"
proof -
  have "takeWhile ((\<lambda>i. \<not> bit y i) \<circ> (\<lambda>j. 63 - j)) [0..<64] = [0..<k]"
    using assms by (intro takeWhile_upt) simp_all
  then show ?thesis
    by (simp add: numberOfLeadingZeros64_def rev_upt_64 takeWhile_map)
qed

section \<open>The inline form: prefix sums and ranks\<close>

lemma psum_0 [simp]: "psum f 0 = 0"
  by (simp add: psum_def)

lemma psum_Suc: "psum f (Suc i) = psum f i + f i"
  by (simp add: psum_def)

lemma psum_mono: "a \<le> b \<Longrightarrow> psum f a \<le> psum f b"
  unfolding psum_def by (rule sum_mono2) auto

lemma psum_last_present:
  "0 < psum f n \<Longrightarrow> \<exists>i<n. 0 < f i \<and> psum f (Suc i) = psum f n"
proof (induction n)
  case 0
  then show ?case by simp
next
  case (Suc n)
  show ?case
  proof (cases "0 < f n")
    case True
    then show ?thesis by blast
  next
    case False
    with Suc.prems have "0 < psum f n" by (simp add: psum_Suc)
    then obtain i where "i < n" "0 < f i" "psum f (Suc i) = psum f n"
      using Suc.IH by blast
    with False show ?thesis
      by (auto simp: psum_Suc intro!: exI [of _ i])
  qed
qed

lemma psum_upd:
  "psum (f(b := v)) i = (if b < i then psum f i - f b + v else psum f i)"
proof (induction i)
  case 0
  show ?case by simp
next
  case (Suc i)
  have "f b \<le> psum f i" if "b < i"
    using that unfolding psum_def by (intro member_le_sum) auto
  with Suc show ?case
    by (auto simp: psum_Suc less_Suc_eq)
qed

lemma rank_cong: "(\<And>q. q < p \<Longrightarrow> bit a q = bit b q) \<Longrightarrow> rank a p = rank b p"
  unfolding rank_def by (rule arg_cong [where f = length], rule filter_cong) auto

lemma rank_clear:
  "lo \<le> hi \<Longrightarrow> (\<And>q. lo \<le> q \<Longrightarrow> q < hi \<Longrightarrow> \<not> bit c q) \<Longrightarrow> rank c hi = rank c lo"
proof (induction hi)
  case 0
  then show ?case by simp
next
  case (Suc hi)
  show ?case
  proof (cases "lo \<le> hi")
    case True
    then have "rank c hi = rank c lo"
      using Suc.prems(2) by (intro Suc.IH) auto
    moreover have "\<not> bit c hi"
      using True Suc.prems(2) by simp
    ultimately show ?thesis by (simp add: rank_Suc)
  next
    case False
    with Suc.prems(1) have "lo = Suc hi" by simp
    then show ?thesis by simp
  qed
qed

lemma inline_rep_presence: "inline_rep m c f \<Longrightarrow> i < 64 \<Longrightarrow> bit m i = (0 < f i)"
  by (simp add: inline_rep_def)

lemma inline_rep_total: "inline_rep m c f \<Longrightarrow> psum f 64 \<le> 63"
  by (simp add: inline_rep_def)

lemma inline_rep_psum_le: "inline_rep m c f \<Longrightarrow> i \<le> 64 \<Longrightarrow> psum f i \<le> 63"
  using psum_mono [of i 64 f] by (simp add: inline_rep_def)

lemma inline_rep_bit:
  assumes "inline_rep m c f"
  shows "bit c q = (\<exists>i<64. 0 < f i \<and> psum f (Suc i) = Suc q)"
proof (cases "q < 64")
  case True
  with assms show ?thesis by (simp add: inline_rep_def)
next
  case False
  then have "\<not> bit c q"
    by (auto dest: bit_imp_le_length)
  moreover have "psum f (Suc i) \<noteq> Suc q" if "i < 64" for i
    using inline_rep_psum_le [OF assms, of "Suc i"] that False by simp
  ultimately show ?thesis by blast
qed

lemma inline_rep_terminator:
  "inline_rep m c f \<Longrightarrow> i < 64 \<Longrightarrow> 0 < f i \<Longrightarrow> bit c (psum f (Suc i) - 1)"
  by (auto simp: inline_rep_bit psum_Suc)

lemma inline_rep_run_zero:
  assumes "inline_rep m c f" and "psum f i \<le> q" and "Suc q < psum f (Suc i)"
  shows "\<not> bit c q"
proof
  assume "bit c q"
  then obtain j where j: "j < 64" "0 < f j" "psum f (Suc j) = Suc q"
    using assms(1) by (auto simp: inline_rep_bit)
  show False
  proof (cases "j < i")
    case True
    then have "psum f (Suc j) \<le> psum f i" by (intro psum_mono) simp
    with j assms(2) show False by simp
  next
    case False
    then have "psum f (Suc i) \<le> psum f (Suc j)" by (intro psum_mono) simp
    with j assms(3) show False by simp
  qed
qed

lemma inline_rep_rank:
  assumes "inline_rep m c f"
  shows "i \<le> 64 \<Longrightarrow> rank c (psum f i) = rank m i"
proof (induction i)
  case 0
  show ?case by simp
next
  case (Suc i)
  then have i: "i < 64" and IH: "rank c (psum f i) = rank m i" by simp_all
  show ?case
  proof (cases "0 < f i")
    case False
    with IH inline_rep_presence [OF assms i] show ?thesis
      by (simp add: psum_Suc rank_Suc)
  next
    case True
    define t where "t = psum f (Suc i) - 1"
    have t: "psum f (Suc i) = Suc t" "psum f i \<le> t"
      using True by (simp_all add: t_def psum_Suc)
    have "rank c t = rank c (psum f i)"
      using t(2)
    proof (rule rank_clear)
      fix q assume "psum f i \<le> q" "q < t"
      then show "\<not> bit c q"
        using inline_rep_run_zero [OF assms, of i q] t(1) by simp
    qed
    moreover have "bit c t"
      using inline_rep_terminator [OF assms i True] by (simp add: t_def)
    ultimately show ?thesis
      using IH True inline_rep_presence [OF assms i] by (simp add: t(1) rank_Suc)
  qed
qed

lemma top_bit_iff: "(c AND 0x8000000000000000 = 0) = (\<not> bit c 63)" for c :: u64
proof -
  have "(0x8000000000000000 :: u64) = 2 ^ 63" by simp
  then show ?thesis by (simp only: and_exp_eq_0_iff_not_bit)
qed

lemma top_two_bits_iff:
  "(c AND 0xc000000000000000 = 0) = (\<not> bit c 62 \<and> \<not> bit c 63)" for c :: u64
proof -
  have "(0xc000000000000000 :: u64) = 2 ^ 63 OR 2 ^ 62" by simp
  then have "c AND 0xc000000000000000 = (c AND 2 ^ 63) OR (c AND 2 ^ 62)"
    by (simp only: bit.conj_disj_distrib)
  then show ?thesis
    by (auto simp only: or_eq_0_iff and_exp_eq_0_iff_not_bit)
qed

lemma shr64_bit: "b < 64 \<Longrightarrow> shr64 m (int b) AND 1 = (if bit m b then 1 else 0)"
  by (simp add: shr64_def and_one_eq bit_iff_odd_drop_bit mod_2_eq_odd)

lemma shl64_nat: "n < 64 \<Longrightarrow> shl64 x (int n) = push_bit n x"
  by (simp add: shl64_def)

lemma shr64_nat: "n < 64 \<Longrightarrow> shr64 x (int n) = drop_bit n x"
  by (simp add: shr64_def)

lemma shl64_one: "shl64 x 1 = push_bit 1 x"
  by (simp add: shl64_def)

lemma bit_times2: "bit (c * 2) q = (0 < q \<and> q < 64 \<and> bit c (q - 1))" for c :: u64
  by (subst mult.commute) (auto simp: bit_double_iff)

lemma bit_sentinel:
  "bit (shl64 c 1 OR 1) q = (q = 0 \<or> (q < 64 \<and> bit c (q - 1)))" for c :: u64
  by (auto simp: shl64_one bit_simps bit_times2)

lemma rank_sentinel: "p < 64 \<Longrightarrow> rank (shl64 c 1 OR 1) (Suc p) = Suc (rank c p)"
proof -
  assume p: "p < 64"
  have "rank (drop_bit 1 (shl64 c 1 OR 1)) p = rank c p"
    using p by (intro rank_cong) (auto simp: bit_simps shl64_one bit_times2)
  then show ?thesis
    by (simp add: rank_shift [of "shl64 c 1 OR 1"] bit_sentinel)
qed

lemma select_before:
  assumes rep: "inline_rep m c f" and b: "b < 64"
  shows "select64 (shl64 c 1 OR 1) (int (rank m (Suc b))) = int (psum f (Suc b))"
proof -
  define P where "P = psum f (Suc b)"
  have P63: "P \<le> 63"
    unfolding P_def using b by (intro inline_rep_psum_le [OF rep]) simp
  have r: "rank c P = rank m (Suc b)"
    unfolding P_def using b by (intro inline_rep_rank [OF rep]) simp
  have "select64 (shl64 c 1 OR 1) (int (rank m (Suc b))) = int P"
  proof (rule select64_eq)
    show "P < 64" using P63 by simp
  next
    show "bit (shl64 c 1 OR 1) P"
    proof (cases P)
      case 0
      then show ?thesis by (simp add: bit_sentinel)
    next
      case (Suc q)
      then have "0 < psum f (Suc b)" by (simp add: P_def)
      then obtain i where "i < Suc b" "0 < f i" "psum f (Suc i) = psum f (Suc b)"
        using psum_last_present by blast
      then have "i < 64 \<and> 0 < f i \<and> psum f (Suc i) = Suc q"
        using b Suc by (simp add: P_def)
      then have "bit c q"
        unfolding inline_rep_bit [OF rep] by blast
      with P63 Suc show ?thesis by (simp add: bit_sentinel)
    qed
  next
    show "int (rank (shl64 c 1 OR 1) P) = int (rank m (Suc b))"
    proof (cases P)
      case 0
      with r show ?thesis by simp
    next
      case (Suc q)
      then have "0 < psum f (Suc b)" by (simp add: P_def)
      then obtain i where "i < Suc b" "0 < f i" "psum f (Suc i) = psum f (Suc b)"
        using psum_last_present by blast
      then have "i < 64 \<and> 0 < f i \<and> psum f (Suc i) = Suc q"
        using b Suc by (simp add: P_def)
      then have "bit c q"
        unfolding inline_rep_bit [OF rep] by blast
      then have "rank c P = Suc (rank c q)"
        by (simp add: Suc rank_Suc)
      moreover have "rank (shl64 c 1 OR 1) P = Suc (rank c q)"
        unfolding Suc using P63 Suc by (intro rank_sentinel) simp
      ultimately show ?thesis using r by simp
    qed
  qed
  then show ?thesis by (simp only: P_def)
qed

lemma select_terminator:
  assumes rep: "inline_rep m c f" and b: "b < 64" and pos: "0 < f b"
  shows "select64 c (int (rank m (Suc b)) - 1) = int (psum f (Suc b)) - 1"
proof -
  define t where "t = psum f (Suc b) - 1"
  have t: "psum f (Suc b) = Suc t"
    using pos by (simp add: t_def psum_Suc)
  have t63: "t < 63"
    using inline_rep_psum_le [OF rep, of "Suc b"] b t by simp
  have bt: "bit c t"
    using inline_rep_terminator [OF rep b pos] by (simp add: t_def)
  have "rank c (Suc t) = rank m (Suc b)"
    using inline_rep_rank [OF rep, of "Suc b"] b t by simp
  with bt have r: "int (rank c t) = int (rank m (Suc b)) - 1"
    by (simp add: rank_Suc)
  have "select64 c (int (rank m (Suc b)) - 1) = int t"
    using t63 bt r by (intro select64_eq) simp_all
  then show ?thesis by (simp add: t)
qed

section \<open>The inline form: \<^verbatim>\<open>ReadCount\<close>\<close>

lemma inline_rep_top_clear: "inline_rep m c f \<Longrightarrow> \<not> bit c 63"
proof
  assume rep: "inline_rep m c f" and "bit c 63"
  then obtain i where "i < 64" "psum f (Suc i) = 64"
    by (auto simp: inline_rep_bit)
  with inline_rep_psum_le [OF rep, of "Suc i"] show False by simp
qed

lemma inline_rep_not_promoted: "inline_rep m c f \<Longrightarrow> c AND 0x8000000000000000 = 0"
  by (simp add: top_bit_iff inline_rep_top_clear)

lemma bit_y:
  assumes "t < 63" and "j < 64"
  shows "bit (shl64 (shl64 c (63 - int t)) 1 OR shl64 1 (63 - int t)) j
           = ((64 - t \<le> j \<and> bit c (j + t - 64)) \<or> j = 63 - t)"
proof -
  have n: "nat ((63 - int t) mod 64) = 63 - t"
    using assms(1) by (simp add: nat_diff_distrib')
  have "shl64 (shl64 c (63 - int t)) 1 OR shl64 1 (63 - int t)
          = push_bit 1 (push_bit (63 - t) c) OR push_bit (63 - t) 1"
    by (simp only: shl64_def n) simp
  moreover have "bit (push_bit 1 (push_bit (63 - t) c) OR push_bit (63 - t) (1 :: u64)) j
          = ((64 - t \<le> j \<and> bit c (j + t - 64)) \<or> j = 63 - t)"
  proof -
    have "bit (push_bit 1 (push_bit (63 - t) c)) j = (64 - t \<le> j \<and> bit c (j + t - 64))"
    proof -
      have "1 + (63 - t) = 64 - t"
        using assms(1) by simp
      then have "push_bit 1 (push_bit (63 - t) c) = push_bit (64 - t) c"
        by (simp only: push_bit_push_bit)
      moreover have "j - (64 - t) = j + t - 64" if "64 - t \<le> j"
        using that assms by simp
      ultimately show ?thesis
        using assms(2) by (auto simp: bit_push_bit_iff)
    qed
    moreover have "bit (push_bit (63 - t) (1 :: u64)) j = (j = 63 - t)"
      using assms by (auto simp: bit_exp_iff)
    ultimately show ?thesis
      by (simp only: bit_or_iff)
  qed
  ultimately show ?thesis by simp
qed

lemma ReadCount_inline:
  assumes rep: "inline_rep (data s g) (counts s g) f" and b: "b < 64"
  shows "ReadCount s g b = int (f b)"
proof (cases "0 < f b")
  case False
  then have "\<not> bit (data s g) b"
    using inline_rep_presence [OF rep b] by simp
  with False b show ?thesis
    by (simp add: ReadCount_def Let_def shr64_bit)
next
  case pos: True
  define m where "m = data s g"
  define c where "c = counts s g"
  note rep' = rep [folded m_def c_def]
  define t where "t = psum f (Suc b) - 1"
  have P: "psum f (Suc b) = Suc t"
    using pos by (simp add: t_def psum_Suc)
  have t63: "t < 63"
    using inline_rep_psum_le [OF rep', of "Suc b"] b P by simp
  define k where "k = f b - 1"
  have k: "f b = Suc k" using pos by (simp add: k_def)
  have kt: "k \<le> t" and pb: "psum f b + k = t"
    using P k by (simp_all add: psum_Suc)
  define y where "y = shl64 (shl64 c (63 - int t)) 1 OR shl64 1 (63 - int t)"
  have "numberOfLeadingZeros64 y = int k"
  proof (rule clz_eq)
    show "k < 64" using kt t63 by simp
  next
    show "bit y (63 - k)"
    proof (cases "k = t")
      case True
      then show ?thesis
        unfolding y_def using t63 by (simp add: bit_y)
    next
      case False
      with kt pb have pos_b: "0 < psum f b" by simp
      then obtain i where i: "i < b" "0 < f i" "psum f (Suc i) = psum f b"
        using psum_last_present by blast
      with b have "i < 64 \<and> 0 < f i \<and> psum f (Suc i) = Suc (psum f b - 1)"
        using pos_b by simp
      then have "bit c (psum f b - 1)"
        unfolding inline_rep_bit [OF rep'] by blast
      moreover have "63 - k + t - 64 = psum f b - 1"
        using pb kt t63 by simp
      moreover have "64 - t \<le> 63 - k"
        using False kt t63 by simp
      ultimately show ?thesis
        unfolding y_def using t63 by (simp add: bit_y)
    qed
  next
    show "\<forall>j<k. \<not> bit y (63 - j)"
    proof (intro allI impI)
      fix j assume j: "j < k"
      have "\<not> bit c (63 - j + t - 64)"
      proof (rule inline_rep_run_zero [OF rep'])
        show "psum f b \<le> 63 - j + t - 64"
          using j pb kt t63 by simp
        show "Suc (63 - j + t - 64) < psum f (Suc b)"
          using j pb kt t63 P by simp
      qed
      moreover have "63 - j \<noteq> 63 - t"
        using j kt t63 by simp
      ultimately show "\<not> bit y (63 - j)"
        unfolding y_def using t63 by (simp add: bit_y)
    qed
  qed
  moreover have "bit m b"
    using inline_rep_presence [OF rep' b] pos by simp
  moreover have "select64 c (int (rank m (Suc b)) - 1) = int t"
    using select_terminator [OF rep' b pos] P by simp
  moreover have "c AND 0x8000000000000000 = 0"
    using rep' by (rule inline_rep_not_promoted)
  ultimately show ?thesis
    using b k
    by (simp add: ReadCount_def Let_def shr64_bit bitsBefore_eq y_def flip: m_def c_def)
qed

section \<open>The inline form: \<^verbatim>\<open>Increment\<close>\<close>

lemma psum_inc: "psum (f(b := f b + 1)) i = (if b < i then psum f i + 1 else psum f i)"
  by (induction i) (auto simp: psum_Suc less_Suc_eq)

lemma psum_dec:
  "0 < f b \<Longrightarrow> psum (f(b := f b - 1)) i = (if b < i then psum f i - 1 else psum f i)"
proof (induction i)
  case 0
  show ?case by simp
next
  case (Suc i)
  have "f b \<le> psum f i" if "b < i"
    using that unfolding psum_def by (intro member_le_sum) auto
  with Suc show ?case
    by (auto simp: psum_Suc less_Suc_eq)
qed

lemma psum_below: "i < b \<Longrightarrow> psum f (Suc i) \<le> psum f b"
  by (intro psum_mono) simp

lemma psum_above: "b < i \<Longrightarrow> 0 < f i \<Longrightarrow> psum f (Suc b) < psum f (Suc i)"
proof -
  assume "b < i" "0 < f i"
  then have "psum f (Suc b) \<le> psum f i" by (intro psum_mono) simp
  with \<open>0 < f i\<close> show ?thesis by (simp add: psum_Suc)
qed

lemma splice_inc:
  fixes f :: "nat \<Rightarrow> nat"
  assumes rep: "inline_rep m c f" and b: "b < 64" and room: "psum f 64 \<le> 62"
    and t: "t = psum f (Suc b) - (if 0 < f b then 1 else 0)"
    and c': "\<And>q. q < 64 \<Longrightarrow> bit c' q =
               ((0 < q \<and> t \<le> q - 1 \<and> bit c (q - 1)) \<or> (q = t \<and> f b = 0) \<or> (q < t \<and> bit c q))"
    and m': "\<And>i. i < 64 \<Longrightarrow> bit m' i = (bit m i \<or> i = b)"
  shows "inline_rep m' c' (f(b := f b + 1))"
proof -
  define f' where "f' = f(b := f b + 1)"
  define P where "P = psum f (Suc b)"
  have ps: "psum f' i = (if b < i then psum f i + 1 else psum f i)" for i
    unfolding f'_def by (rule psum_inc)
  have f'_other: "f' i = f i" if "i \<noteq> b" for i
    using that by (simp add: f'_def)
  have f'_b: "f' b = Suc (f b)"
    by (simp add: f'_def)
  have f'_pos: "0 < f' i" if "0 < f i" for i
    using that by (simp add: f'_def)
  have pb_t: "psum f b \<le> t"
    unfolding t by (cases "0 < f b") (simp_all add: psum_Suc)
  have t_P: "t \<le> P"
    unfolding t P_def by simp
  have below: "psum f (Suc i) \<le> t" if "i < b" for i
    using psum_below [OF that, of f] pb_t by simp
  have old: "bit c q = (\<exists>i<64. 0 < f i \<and> psum f (Suc i) = Suc q)" for q
    by (rule inline_rep_bit [OF rep])
  have "bit c' q = (\<exists>i<64. 0 < f' i \<and> psum f' (Suc i) = Suc q)" if q: "q < 64" for q
  proof -
    consider "q < t" | "q = t" | "t < q" by linarith
    then show ?thesis
    proof cases
      case 1
      then have "bit c' q = bit c q"
        using c' [OF q] by auto
      also have "\<dots> = (\<exists>i<64. 0 < f' i \<and> psum f' (Suc i) = Suc q)"
      proof
        assume "bit c q"
        then obtain i where i: "i < 64" "0 < f i" "psum f (Suc i) = Suc q"
          unfolding old by blast
        have "i < b"
        proof (rule ccontr)
          assume "\<not> i < b"
          then consider "i = b" | "b < i" by linarith
          then show False
          proof cases
            case 1
            with i 1 \<open>q < t\<close> show False by (simp add: t)
          next
            case 2
            from psum_above [of b i f] 2 i(2) i(3) \<open>q < t\<close> t_P show False
              by (simp add: P_def)
          qed
        qed
        with i show "\<exists>i<64. 0 < f' i \<and> psum f' (Suc i) = Suc q"
          by (intro exI [of _ i]) (simp add: ps f'_pos)
      next
        assume "\<exists>i<64. 0 < f' i \<and> psum f' (Suc i) = Suc q"
        then obtain i where i: "i < 64" "0 < f' i" "psum f' (Suc i) = Suc q"
          by blast
        have "i < b"
        proof (rule ccontr)
          assume "\<not> i < b"
          then have bi: "b \<le> i" by simp
          then have "P \<le> psum f (Suc i)"
            unfolding P_def by (intro psum_mono) simp
          with bi i(3) \<open>q < t\<close> t_P show False
            by (simp add: ps)
        qed
        with i have "i < 64 \<and> 0 < f i \<and> psum f (Suc i) = Suc q"
          by (simp add: ps f'_other)
        then show "bit c q"
          unfolding old by blast
      qed
      finally show ?thesis .
    next
      case 2
      then have "bit c' q = (f b = 0)"
        using c' [OF q] by auto
      also have "\<dots> = (\<exists>i<64. 0 < f' i \<and> psum f' (Suc i) = Suc q)"
      proof
        assume "f b = 0"
        then have "b < 64 \<and> 0 < f' b \<and> psum f' (Suc b) = Suc q"
          using b 2 by (simp add: ps f'_b t)
        then show "\<exists>i<64. 0 < f' i \<and> psum f' (Suc i) = Suc q"
          by blast
      next
        assume "\<exists>i<64. 0 < f' i \<and> psum f' (Suc i) = Suc q"
        then obtain i where i: "i < 64" "0 < f' i" "psum f' (Suc i) = Suc q"
          by blast
        show "f b = 0"
        proof (rule ccontr)
          assume "f b \<noteq> 0"
          then have tP: "Suc t = P" and pb: "psum f b < P"
            by (simp_all add: t P_def psum_Suc)
          show False
          proof (cases "i < b")
            case True
            with psum_below [OF True, of f] i(3) 2 tP pb show False
              by (simp add: ps)
          next
            case False
            then have bi: "b \<le> i" by simp
            then have "P \<le> psum f (Suc i)"
              unfolding P_def by (intro psum_mono) simp
            with bi i(3) 2 tP show False
              by (simp add: ps)
          qed
        qed
      qed
      finally show ?thesis .
    next
      case 3
      then have "bit c' q = bit c (q - 1)"
        using c' [OF q] by auto
      also have "\<dots> = (\<exists>i<64. 0 < f' i \<and> psum f' (Suc i) = Suc q)"
      proof
        assume "bit c (q - 1)"
        then obtain i where i: "i < 64" "0 < f i" "psum f (Suc i) = q"
          unfolding old using 3 by auto
        have "b \<le> i"
        proof (rule ccontr)
          assume "\<not> b \<le> i"
          then have "i < b" by simp
          from below [OF this] i(3) 3 show False by simp
        qed
        with i have "i < 64 \<and> 0 < f' i \<and> psum f' (Suc i) = Suc q"
          by (simp add: ps f'_pos)
        then show "\<exists>i<64. 0 < f' i \<and> psum f' (Suc i) = Suc q"
          by blast
      next
        assume "\<exists>i<64. 0 < f' i \<and> psum f' (Suc i) = Suc q"
        then obtain i where i: "i < 64" "0 < f' i" "psum f' (Suc i) = Suc q"
          by blast
        have bi: "b \<le> i"
        proof (rule ccontr)
          assume "\<not> b \<le> i"
          then have ib: "i < b" by simp
          from below [OF ib] i(3) ib 3 show False by (simp add: ps)
        qed
        then have pq: "psum f (Suc i) = q"
          using i(3) by (simp add: ps)
        have "0 < f i"
        proof (cases "i = b")
          case True
          show ?thesis
          proof (rule ccontr)
            assume "\<not> 0 < f i"
            with True pq 3 show False by (simp add: t)
          qed
        next
          case False
          with i(2) show ?thesis by (simp add: f'_other)
        qed
        with i(1) pq 3 have "i < 64 \<and> 0 < f i \<and> psum f (Suc i) = Suc (q - 1)"
          by simp
        then show "bit c (q - 1)"
          unfolding old by blast
      qed
      finally show ?thesis .
    qed
  qed
  moreover have "bit m' i = (0 < f' i)" if "i < 64" for i
    using m' [OF that] inline_rep_presence [OF rep that] by (cases "i = b") (simp_all add: f'_other f'_b)
  moreover have "psum f' 64 \<le> 63"
    using room b by (simp add: ps)
  ultimately show ?thesis
    unfolding inline_rep_def f'_def by blast
qed

lemma mask_as_shl: "t < 64 \<Longrightarrow> shl64 1 (int t) - 1 = mask t"
  by (simp add: shl64_nat mask_eq_exp_minus_1)

lemma bit_splice_word:
  assumes "t < 64" and "q < 64"
  shows "bit (shl64 (c AND NOT (shl64 1 (int t) - 1)) 1 OR shl64 (of_bool x) (int t)
              OR (c AND (shl64 1 (int t) - 1))) q
         = ((0 < q \<and> t \<le> q - 1 \<and> bit c (q - 1)) \<or> (q = t \<and> x) \<or> (q < t \<and> bit c q))"
proof -
  have 1: "bit (shl64 (c AND NOT (mask t)) 1) q = (0 < q \<and> t \<le> q - 1 \<and> bit c (q - 1))"
    using assms by (auto simp: shl64_one bit_times2 bit_simps)
  have 2: "bit (shl64 (of_bool x :: u64) (int t)) q = (q = t \<and> x)"
    using assms by (auto simp: shl64_nat bit_simps)
  have 3: "bit (c AND mask t) q = (q < t \<and> bit c q)"
    using assms by (auto simp: bit_simps)
  show ?thesis
    unfolding mask_as_shl [OF assms(1)] bit_or_iff 1 2 3 ..
qed

lemma inline_room:
  assumes rep: "inline_rep m c f" and fits: "c AND 0xc000000000000000 = 0"
  shows "psum f 64 \<le> 62"
proof (rule ccontr)
  assume "\<not> psum f 64 \<le> 62"
  with inline_rep_total [OF rep] have T: "psum f 64 = 63" by simp
  then have "0 < psum f 64" by simp
  then obtain i where "i < 64" "0 < f i" "psum f (Suc i) = psum f 64"
    using psum_last_present by blast
  then have "i < 64 \<and> 0 < f i \<and> psum f (Suc i) = Suc 62"
    using T by simp
  then have "bit c 62"
    unfolding inline_rep_bit [OF rep] by blast
  with fits show False
    by (simp add: top_two_bits_iff)
qed

lemma Increment_inline_unfold:
  assumes fits: "counts s g AND 0xc000000000000000 = 0"
  shows "Increment s g b =
     s\<lparr>data := (data s)(g := data s g OR shl64 1 (int b)),
       counts := (counts s)(g :=
         (let m = data s g; c = counts s g;
              bitsBefore = bitCount64 (m AND shr64 0xffffffffffffffff (63 - int b));
              before = select64 (shl64 c 1 OR 1) bitsBefore;
              d = shr64 m (int b) AND 1;
              insertAt = before - uint d;
              mask = shl64 1 insertAt - 1
          in shl64 (c AND NOT mask) 1 OR shl64 (1 XOR d) insertAt OR (c AND mask)))\<rparr>"
  using fits by (simp add: Increment_def Let_def)

lemma Increment_inline:
  assumes rep: "inline_rep (data s g) (counts s g) f" and b: "b < 64"
    and fits: "counts s g AND 0xc000000000000000 = 0"
  shows "inline_rep (data (Increment s g b) g) (counts (Increment s g b) g) (f(b := f b + 1))"
proof -
  define m where "m = data s g"
  define c where "c = counts s g"
  note rep' = rep [folded m_def c_def]
  define P where "P = psum f (Suc b)"
  define t where "t = P - (if 0 < f b then 1 else 0)"
  have room: "psum f 64 \<le> 62"
    using rep fits by (rule inline_room)
  have P62: "P \<le> 62"
    using psum_mono [of "Suc b" 64 f] b room by (simp add: P_def)
  then have t64: "t < 64" by (simp add: t_def)
  have pres: "bit m b = (0 < f b)"
    using inline_rep_presence [OF rep' b] .
  have d: "shr64 m (int b) AND 1 = (if 0 < f b then 1 else 0)"
    using b pres by (simp add: shr64_bit)
  have sel: "select64 (shl64 c 1 OR 1) (bitCount64 (m AND shr64 0xffffffffffffffff (63 - int b))) = int P"
    using select_before [OF rep' b] b by (simp add: bitsBefore_eq P_def)
  have ins: "int P - uint (if 0 < f b then 1 else 0 :: u64) = int t"
  proof (cases "0 < f b")
    case True
    then have "0 < P" by (simp add: P_def psum_Suc)
    with True show ?thesis by (simp add: t_def)
  next
    case False
    then show ?thesis by (simp add: t_def)
  qed
  have e: "1 XOR (if 0 < f b then 1 else 0 :: u64) = of_bool (f b = 0)"
    by simp
  have c'_eq: "counts (Increment s g b) g =
      shl64 (c AND NOT (shl64 1 (int t) - 1)) 1 OR shl64 (of_bool (f b = 0)) (int t)
        OR (c AND (shl64 1 (int t) - 1))"
    unfolding Increment_inline_unfold [OF fits]
    by (simp add: Let_def d sel ins e flip: m_def c_def)
  have m'_eq: "data (Increment s g b) g = m OR shl64 1 (int b)"
    by (simp add: Increment_data m_def)
  show ?thesis
  proof (rule splice_inc [OF rep' b room])
    show "t = psum f (Suc b) - (if 0 < f b then 1 else 0)"
      by (simp add: t_def P_def)
  next
    fix q :: nat assume q: "q < 64"
    show "bit (counts (Increment s g b) g) q =
        ((0 < q \<and> t \<le> q - 1 \<and> bit c (q - 1)) \<or> (q = t \<and> f b = 0) \<or> (q < t \<and> bit c q))"
      unfolding c'_eq by (rule bit_splice_word [OF t64 q])
  next
    fix i :: nat assume "i < 64"
    then show "bit (data (Increment s g b) g) i = (bit m i \<or> i = b)"
      unfolding m'_eq using b by (auto simp: bit_or_iff bit_shl64_1)
  qed
qed

section \<open>The inline form: \<^verbatim>\<open>Decrement\<close>\<close>

lemma removed_bit:
  assumes rep: "inline_rep m c f" and b: "b < 64" and pos: "0 < f b"
  shows "bit c (psum f (Suc b) - 2) = (f b = 1)"
proof (cases "f b = 1")
  case True
  show ?thesis
  proof (cases "0 < psum f b")
    case False
    with True have "psum f (Suc b) - 2 = psum f (Suc b) - 1"
      by (simp add: psum_Suc)
    with inline_rep_terminator [OF rep b pos] True show ?thesis by simp
  next
    case pb: True
    then obtain i where "i < b" "0 < f i" "psum f (Suc i) = psum f b"
      using psum_last_present by blast
    with b pb have "i < 64 \<and> 0 < f i \<and> psum f (Suc i) = Suc (psum f b - 1)"
      by simp
    then have "bit c (psum f b - 1)"
      unfolding inline_rep_bit [OF rep] by blast
    with True show ?thesis by (simp add: psum_Suc)
  qed
next
  case False
  with pos have "2 \<le> f b" by simp
  then have "psum f b \<le> psum f (Suc b) - 2" "Suc (psum f (Suc b) - 2) < psum f (Suc b)"
    by (simp_all add: psum_Suc)
  then have "\<not> bit c (psum f (Suc b) - 2)"
    by (rule inline_rep_run_zero [OF rep])
  with False show ?thesis by simp
qed

lemma splice_dec:
  fixes f :: "nat \<Rightarrow> nat"
  assumes rep: "inline_rep m c f" and b: "b < 64" and pos: "0 < f b"
    and r: "r = psum f (Suc b) - 2"
    and c': "\<And>q. q < 64 \<Longrightarrow> bit c' q = ((q < r \<and> bit c q) \<or> (r \<le> q \<and> bit c (Suc q)))"
    and m': "\<And>i. i < 64 \<Longrightarrow> bit m' i = (bit m i \<and> \<not> (i = b \<and> bit c r))"
  shows "inline_rep m' c' (f(b := f b - 1))"
proof -
  define f' where "f' = f(b := f b - 1)"
  define P where "P = psum f (Suc b)"
  have ps: "psum f' i = (if b < i then psum f i - 1 else psum f i)" for i
    unfolding f'_def using pos by (rule psum_dec)
  have f'_other: "f' i = f i" if "i \<noteq> b" for i
    using that by (simp add: f'_def)
  have f'_b: "f' b = f b - 1"
    by (simp add: f'_def)
  have f'_le: "0 < f i" if "0 < f' i" for i
    using that by (cases "i = b") (simp_all add: f'_def)
  have P_eq: "P = psum f b + f b"
    by (simp add: P_def psum_Suc)
  have P1: "1 \<le> P" using pos by (simp add: P_eq)
  have r_eq: "r = P - 2" by (simp add: r P_def)
  have above: "P \<le> psum f (Suc i)" if "b \<le> i" for i
    unfolding P_def using that by (intro psum_mono) simp
  have below: "psum f (Suc i) \<le> psum f b" if "i < b" for i
    using that by (rule psum_below)
  have old: "bit c q = (\<exists>i<64. 0 < f i \<and> psum f (Suc i) = Suc q)" for q
    by (rule inline_rep_bit [OF rep])
  have rem: "bit c r = (f b = 1)"
    unfolding r by (rule removed_bit [OF rep b pos])
  have "bit c' q = (\<exists>i<64. 0 < f' i \<and> psum f' (Suc i) = Suc q)" if q: "q < 64" for q
  proof (cases "q < r")
    case True
    then have "bit c' q = bit c q"
      using c' [OF q] by auto
    also have "\<dots> = (\<exists>i<64. 0 < f' i \<and> psum f' (Suc i) = Suc q)"
    proof
      assume "bit c q"
      then obtain i where i: "i < 64" "0 < f i" "psum f (Suc i) = Suc q"
        unfolding old by blast
      have "i < b"
      proof (rule ccontr)
        assume "\<not> i < b"
        then have "P \<le> psum f (Suc i)" by (intro above) simp
        with i(3) True show False by (simp add: r_eq)
      qed
      with i have "i < 64 \<and> 0 < f' i \<and> psum f' (Suc i) = Suc q"
        by (simp add: ps f'_other)
      then show "\<exists>i<64. 0 < f' i \<and> psum f' (Suc i) = Suc q" by blast
    next
      assume "\<exists>i<64. 0 < f' i \<and> psum f' (Suc i) = Suc q"
      then obtain i where i: "i < 64" "0 < f' i" "psum f' (Suc i) = Suc q"
        by blast
      have "i < b"
      proof (rule ccontr)
        assume "\<not> i < b"
        then have bi: "b \<le> i" by simp
        from above [OF bi] bi i(3) True show False
          by (simp add: ps r_eq)
      qed
      with i have "i < 64 \<and> 0 < f i \<and> psum f (Suc i) = Suc q"
        by (simp add: ps f'_other)
      then show "bit c q"
        unfolding old by blast
    qed
    finally show ?thesis .
  next
    case False
    then have rq: "r \<le> q" by simp
    then have "bit c' q = bit c (Suc q)"
      using c' [OF q] by auto
    also have "\<dots> = (\<exists>i<64. 0 < f' i \<and> psum f' (Suc i) = Suc q)"
    proof
      assume "bit c (Suc q)"
      then obtain i where i: "i < 64" "0 < f i" "psum f (Suc i) = Suc (Suc q)"
        unfolding old by blast
      have bi: "b \<le> i"
      proof (rule ccontr)
        assume "\<not> b \<le> i"
        then have "i < b" by simp
        from below [OF this] i(3) rq pos show False
          by (simp add: r_eq P_eq)
      qed
      show "\<exists>i<64. 0 < f' i \<and> psum f' (Suc i) = Suc q"
      proof (cases "i = b \<and> f b = 1")
        case True
        with i(3) have "psum f b = Suc q"
          by (simp add: psum_Suc)
        then have "0 < psum f b" by simp
        then obtain j where j: "j < b" "0 < f j" "psum f (Suc j) = psum f b"
          using psum_last_present by blast
        with b \<open>psum f b = Suc q\<close> have "j < 64 \<and> 0 < f' j \<and> psum f' (Suc j) = Suc q"
          by (simp add: ps f'_other)
        then show ?thesis by blast
      next
        case False
        with i(2) have "0 < f' i"
          by (cases "i = b") (simp_all add: f'_def)
        with i bi have "i < 64 \<and> 0 < f' i \<and> psum f' (Suc i) = Suc q"
          by (simp add: ps)
        then show ?thesis by blast
      qed
    next
      assume "\<exists>i<64. 0 < f' i \<and> psum f' (Suc i) = Suc q"
      then obtain i where i: "i < 64" "0 < f' i" "psum f' (Suc i) = Suc q"
        by blast
      show "bit c (Suc q)"
      proof (cases "b \<le> i")
        case True
        with i above [OF True] P1 have "i < 64 \<and> 0 < f i \<and> psum f (Suc i) = Suc (Suc q)"
          by (simp add: ps f'_le)
        then show ?thesis
          unfolding old by blast
      next
        case False
        then have ib: "i < b" by simp
        with i have fi: "0 < f i" and pi: "psum f (Suc i) = Suc q"
          by (simp_all add: ps f'_other)
        from below [OF ib] pi have le: "Suc q \<le> psum f b" by simp
        with rq pos have "f b = 1 \<and> Suc q = psum f b"
          unfolding r_eq P_eq by arith
        then have "b < 64 \<and> 0 < f b \<and> psum f (Suc b) = Suc (Suc q)"
          using b by (simp add: psum_Suc)
        then show ?thesis
          unfolding old by blast
      qed
    qed
    finally show ?thesis .
  qed
  moreover have "bit m' i = (0 < f' i)" if "i < 64" for i
  proof (cases "i = b")
    case True
    with m' [OF that] inline_rep_presence [OF rep that] rem pos show ?thesis
      by (auto simp: f'_b)
  next
    case False
    with m' [OF that] inline_rep_presence [OF rep that] show ?thesis
      by (simp add: f'_other)
  qed
  moreover have "psum f' 64 \<le> 63"
    using inline_rep_total [OF rep] b by (simp add: ps)
  ultimately show ?thesis
    unfolding inline_rep_def f'_def by blast
qed

lemma Decrement_inline_unfold:
  assumes "counts s g AND 0x8000000000000000 = 0"
  shows "Decrement s g b =
     (let m = data s g; c = counts s g;
          bitsBefore = bitCount64 (m AND shr64 0xffffffffffffffff (63 - int b));
          before = select64 (shl64 c 1 OR 1) bitsBefore - 1;
          removeAt = max 0 (before - 1);
          mask = shl64 1 removeAt - 1;
          removed = shr64 c removeAt AND 1
      in s\<lparr>counts := (counts s)(g := (shr64 c 1 AND NOT mask) OR (c AND mask)),
           data := (data s)(g := m AND NOT (shl64 removed (int b)))\<rparr>)"
  using assms by (simp add: Decrement_def Let_def)

lemma bit_remove_word:
  assumes "r < 64" and "q < 64"
  shows "bit ((shr64 c 1 AND NOT (shl64 1 (int r) - 1)) OR (c AND (shl64 1 (int r) - 1))) q
         = ((q < r \<and> bit c q) \<or> (r \<le> q \<and> bit c (Suc q)))"
proof -
  have "shr64 c 1 = drop_bit 1 c"
    by (simp add: shr64_def)
  then show ?thesis
    unfolding mask_as_shl [OF assms(1)] using assms
    by (auto simp: bit_simps simp del: drop_bit_Suc)
qed

lemma Decrement_inline:
  assumes rep: "inline_rep (data s g) (counts s g) f" and b: "b < 64" and pos: "0 < f b"
  shows "inline_rep (data (Decrement s g b) g) (counts (Decrement s g b) g) (f(b := f b - 1))"
proof -
  define m where "m = data s g"
  define c where "c = counts s g"
  note rep' = rep [folded m_def c_def]
  define P where "P = psum f (Suc b)"
  define r where "r = P - 2"
  have np: "counts s g AND 0x8000000000000000 = 0"
    using rep by (rule inline_rep_not_promoted)
  have P63: "P \<le> 63"
    unfolding P_def using b by (intro inline_rep_psum_le [OF rep']) simp
  then have r64: "r < 64" by (simp add: r_def)
  have sel: "select64 (shl64 c 1 OR 1) (bitCount64 (m AND shr64 0xffffffffffffffff (63 - int b))) = int P"
    using select_before [OF rep' b] b by (simp add: bitsBefore_eq P_def)
  have rem_at: "max 0 (int P - 2) = int r"
    by (simp add: r_def)
  have removed: "shr64 c (int r) AND 1 = of_bool (bit c r)"
    using r64 by (simp add: shr64_bit)
  have c'_eq: "counts (Decrement s g b) g =
      (shr64 c 1 AND NOT (shl64 1 (int r) - 1)) OR (c AND (shl64 1 (int r) - 1))"
    unfolding Decrement_inline_unfold [OF np]
    by (simp add: Let_def sel rem_at flip: m_def c_def)
  have m'_eq: "data (Decrement s g b) g = m AND NOT (shl64 (of_bool (bit c r)) (int b))"
    unfolding Decrement_inline_unfold [OF np]
    by (simp add: Let_def sel rem_at removed flip: m_def c_def)
  show ?thesis
  proof (rule splice_dec [OF rep' b pos])
    show "r = psum f (Suc b) - 2"
      by (simp add: r_def P_def)
  next
    fix q :: nat assume q: "q < 64"
    show "bit (counts (Decrement s g b) g) q = ((q < r \<and> bit c q) \<or> (r \<le> q \<and> bit c (Suc q)))"
      unfolding c'_eq by (rule bit_remove_word [OF r64 q])
  next
    fix i :: nat assume "i < 64"
    then show "bit (data (Decrement s g b) g) i = (bit m i \<and> \<not> (i = b \<and> bit c r))"
      unfolding m'_eq using b by (auto simp: bit_simps shl64_nat)
  qed
qed

section \<open>The promoted form: header fields\<close>

lemma bit_nat_less: "m < 2 ^ k \<Longrightarrow> bit m n \<Longrightarrow> n < k" for m :: nat
proof -
  assume "m < 2 ^ k" "bit m n"
  then have "bit (take_bit k m) n" by (simp add: take_bit_nat_eq_self)
  then show "n < k" by (simp add: bit_take_bit_iff)
qed

lemma bit_top: "bit (2 ^ 63 :: u64) n = (n = 63)"
  by (simp only: bit_exp_iff possible_bit_word) auto

lemma bit_header:
  "bit (header T idx) n =
     (n = 63 \<or> (32 \<le> n \<and> n < 64 \<and> bit T (n - 32)) \<or> (n < 64 \<and> bit idx n))"
proof -
  have "bit (0x8000000000000000 :: u64) n = (n = 63)"
    using bit_top [of n] by simp
  then show ?thesis
    unfolding header_def by (auto simp: bit_or_iff bit_push_bit_iff bit_of_nat_iff)
qed

lemma promoted_iff: "promoted c = bit c 63"
  by (simp add: promoted_def top_bit_iff)

lemma promoted_header [simp]: "promoted (header T idx)"
  by (simp add: promoted_iff bit_header)

lemma low28: "(0x0fffffff :: u64) = mask 28"
  by (simp add: mask_eq_exp_minus_1)

lemma slot_index_less: "slot_index c < 2 ^ 28"
proof -
  have "unat (take_bit 28 c) = take_bit 28 (unat c)"
    by (rule unsigned_take_bit_eq)
  moreover have "take_bit 28 (unat c) < 2 ^ 28"
    by (rule take_bit_nat_less_exp)
  ultimately show ?thesis
    by (simp add: slot_index_def low28 take_bit_eq_mask)
qed

lemma slot_index_header: "idx < 2 ^ 28 \<Longrightarrow> slot_index (header T idx) = idx"
proof -
  assume idx: "idx < 2 ^ 28"
  have "header T idx AND mask 28 = of_nat idx"
  proof (rule bit_word_eqI)
    fix n assume "n < LENGTH(64)"
    then show "bit (header T idx AND mask 28) n = bit (of_nat idx :: u64) n"
      using bit_nat_less [OF idx, of n]
      by (auto simp: bit_and_iff bit_mask_iff bit_header bit_of_nat_iff)
  qed
  moreover have "unat (of_nat idx :: u64) = idx"
    using idx by (simp add: unat_of_nat)
  ultimately show ?thesis
    by (simp add: slot_index_def low28)
qed

lemma total_count_header:
  assumes T: "T < 2 ^ 28" and idx: "idx < 2 ^ 28"
  shows "total_count (header T idx) = T"
proof -
  have "drop_bit 32 (header T idx) AND mask 28 = of_nat T"
  proof (rule bit_word_eqI)
    fix n assume "n < LENGTH(64)"
    then show "bit (drop_bit 32 (header T idx) AND mask 28) n = bit (of_nat T :: u64) n"
      using bit_nat_less [OF idx, of "32 + n"] bit_nat_less [OF T, of n]
      by (auto simp: bit_and_iff bit_mask_iff bit_drop_bit_eq bit_header bit_of_nat_iff)
  qed
  moreover have "unat (of_nat T :: u64) = T"
    using T by (simp add: unat_of_nat)
  ultimately show ?thesis
    by (simp add: total_count_def low28 shr64_def)
qed

lemma header_plus:
  assumes T: "T < 2 ^ 31" and idx: "idx < 2 ^ 28"
  shows "header T idx = 2 ^ 63 + push_bit 32 (of_nat T) + of_nat idx"
proof -
  define A :: u64 where "A = 2 ^ 63"
  have bitA: "bit A n = (n = 63)" for n
    unfolding A_def by (rule bit_top)
  have a: "push_bit 32 (of_nat T) + (of_nat idx :: u64) = push_bit 32 (of_nat T) OR of_nat idx"
  proof (rule disjunctive_add)
    fix n
    show "\<not> bit (push_bit 32 (of_nat T) :: u64) n \<or> \<not> bit (of_nat idx :: u64) n"
      using bit_nat_less [OF idx, of n]
      by (auto simp: bit_push_bit_iff bit_of_nat_iff)
  qed
  have b: "A + (push_bit 32 (of_nat T) OR of_nat idx) = A OR (push_bit 32 (of_nat T) OR of_nat idx)"
  proof (rule disjunctive_add)
    fix n
    show "\<not> bit A n \<or> \<not> bit (push_bit 32 (of_nat T) OR of_nat idx :: u64) n"
      using bit_nat_less [OF idx, of n] bit_nat_less [OF T, of "n - 32"]
      by (auto simp: bit_or_iff bitA bit_push_bit_iff bit_of_nat_iff)
  qed
  have "header T idx = A OR (push_bit 32 (of_nat T) OR of_nat idx)"
    by (simp add: header_def A_def)
  also have "\<dots> = A + (push_bit 32 (of_nat T) + of_nat idx)"
    by (simp only: a b)
  finally show ?thesis
    by (simp only: A_def add.assoc)
qed

lemma header_inc:
  assumes "Suc T < 2 ^ 31" and "idx < 2 ^ 28"
  shows "header T idx + shl64 1 32 = header (Suc T) idx"
proof -
  have "T < 2 ^ 31" using assms(1) by simp
  then show ?thesis
    using assms by (simp add: header_plus shl64_def push_bit_eq_mult)
qed

lemma header_dec:
  assumes "0 < T" and "T < 2 ^ 31" and "idx < 2 ^ 28"
  shows "header T idx - shl64 1 32 = header (T - 1) idx"
proof -
  obtain T' where T': "T = Suc T'"
    using assms(1) by (cases T) simp_all
  then have "T' < 2 ^ 31" using assms(2) by simp
  then show ?thesis
    using assms by (simp add: T' header_plus shl64_def push_bit_eq_mult)
qed

section \<open>The promoted form: lanes\<close>

lemma small_add_mod:
  fixes x v :: nat
  assumes "x mod 16 + v \<le> 15"
  shows "(x + v) mod 16 = x mod 16 + v" and "(x + v) div 16 = x div 16"
proof -
  have x: "x + v = (x div 16) * 16 + (x mod 16 + v)"
    by simp
  have lt: "x mod 16 + v < 16"
    using assms by simp
  show "(x + v) mod 16 = x mod 16 + v"
    by (subst x) (simp only: mod_mult_self3 mod_less [OF lt])
  have "(x + v) div 16 = (x div 16 * 16 + (x mod 16 + v)) div 16"
    by (simp only: x [symmetric])
  also have "\<dots> = x div 16 + (x mod 16 + v) div 16"
    by (rule div_mult_self3) simp
  also have "\<dots> = x div 16"
    using lt by simp
  finally show "(x + v) div 16 = x div 16" .
qed

lemma lane_add_nat:
  fixes W v :: nat
  assumes j: "j < 16" and i: "i < 16" and fit: "(W div 16 ^ j) mod 16 + v \<le> 15"
  shows "((W + v * 16 ^ j) mod 2 ^ 64 div 16 ^ i) mod 16
           = (if i = j then (W div 16 ^ j) mod 16 + v else (W div 16 ^ i) mod 16)"
proof -
  define x where "x = W div 16 ^ j"
  have xj: "(W + v * 16 ^ j) div 16 ^ j = x + v"
    by (simp add: x_def)
  have red: "((W + v * 16 ^ j) mod 2 ^ 64 div 16 ^ i) mod 16 = (W + v * 16 ^ j) div 16 ^ i mod 16"
    using i by (rule div_mod_pow)
  consider "i < j" | "i = j" | "j < i" by linarith
  then have "(W + v * 16 ^ j) div 16 ^ i mod 16
           = (if i = j then x mod 16 + v else (W div 16 ^ i) mod 16)"
  proof cases
    case 1
    then have e: "(16::nat) ^ j = 16 ^ (j - i) * 16 ^ i"
      by (simp flip: power_add)
    have "(W + v * 16 ^ j) div 16 ^ i = v * 16 ^ (j - i) + W div 16 ^ i"
      unfolding e by (simp only: mult.assoc [symmetric] div_mult_self3) simp
    moreover have "v * (16::nat) ^ (j - i) mod 16 = 0"
    proof -
      have "(16::nat) dvd 16 ^ (j - i)" using 1 by simp
      then show ?thesis by (simp add: mod_eq_0_iff_dvd)
    qed
    ultimately have "(W + v * 16 ^ j) div 16 ^ i mod 16 = (W div 16 ^ i) mod 16"
      by (metis add_cancel_right_left mod_add_left_eq)
    with 1 show ?thesis by simp
  next
    case 2
    have "(W + v * 16 ^ j) div 16 ^ j mod 16 = (x + v) mod 16"
      by (simp only: xj)
    also have "\<dots> = x mod 16 + v"
      using fit by (intro small_add_mod(1)) (simp add: x_def)
    finally show ?thesis using 2 by simp
  next
    case 3
    then have e: "(16::nat) ^ i = 16 ^ j * (16 * 16 ^ (i - j - 1))"
      by (simp flip: power_add power_Suc)
    have "(W + v * 16 ^ j) div 16 ^ i = (x + v) div 16 div 16 ^ (i - j - 1)"
      unfolding e by (simp only: div_mult2_eq xj)
    also have "\<dots> = x div 16 div 16 ^ (i - j - 1)"
      using small_add_mod(2) [of x v] fit by (simp add: x_def)
    also have "\<dots> = W div 16 ^ i"
      unfolding e x_def by (simp only: div_mult2_eq)
    finally show ?thesis using 3 by simp
  qed
  then show ?thesis
    unfolding red by (simp only: x_def)
qed

lemma unat_lane_word:
  assumes "j < 16"
  shows "unat (of_nat v * push_bit (4 * j) 1 :: u64) = (v * 16 ^ j) mod 2 ^ 64"
proof -
  have "(of_nat v * push_bit (4 * j) 1 :: u64) = of_nat (v * 16 ^ j)"
    by (simp add: push_bit_eq_mult power_mult)
  then show ?thesis
    by (simp only: unat_of_nat) simp
qed

lemma nibble_add:
  assumes j: "j < 16" and i: "i < 16" and fit: "unat (nibble w j) + v \<le> 15"
  shows "unat (nibble (w + of_nat v * push_bit (4 * j) 1) i)
           = (if i = j then unat (nibble w j) + v else unat (nibble w i))"
proof -
  have "unat (w + y) = (unat w + unat y) mod 2 ^ 64" for y :: u64
    by (simp add: unat_word_ariths(1))
  then have "unat (w + of_nat v * push_bit (4 * j) 1) = (unat w + (v * 16 ^ j) mod 2 ^ 64) mod 2 ^ 64"
    by (simp only: unat_lane_word [OF j])
  also have "\<dots> = (unat w + v * 16 ^ j) mod 2 ^ 64"
    by (rule mod_add_right_eq)
  finally have u: "unat (w + of_nat v * push_bit (4 * j) 1) = (unat w + v * 16 ^ j) mod 2 ^ 64" .
  show ?thesis
    unfolding unat_nibble u using j i fit [unfolded unat_nibble] by (rule lane_add_nat)
qed

lemma nibble_sub:
  assumes j: "j < 16" and i: "i < 16" and pos: "0 < unat (nibble w j)"
  shows "unat (nibble (w - push_bit (4 * j) 1) i)
           = (if i = j then unat (nibble w j) - 1 else unat (nibble w i))"
proof -
  define w' where "w' = w - push_bit (4 * j) 1"
  have w: "w = w' + of_nat 1 * push_bit (4 * j) 1"
    by (simp add: w'_def)
  have lt16: "unat (nibble w' j) < 16"
    unfolding unat_nibble by simp
  have "unat (nibble w' j) \<noteq> 15"
  proof
    assume full: "unat (nibble w' j) = 15"
    have "unat w = (unat w' + 16 ^ j) mod 2 ^ 64"
      using unat_add_pow [OF j, of w'] by (simp add: w'_def)
    then have "unat (nibble w j) = 0"
      unfolding unat_nibble using nat_carry_self [OF full [unfolded unat_nibble] j] by simp
    with pos show False by simp
  qed
  with lt16 have fit: "unat (nibble w' j) + 1 \<le> 15" by simp
  have "unat (nibble w i) = (if i = j then unat (nibble w' j) + 1 else unat (nibble w' i))"
    by (subst w) (rule nibble_add [OF j i fit])
  then show ?thesis
    unfolding w'_def [symmetric] by (cases "i = j") simp_all
qed

lemma lane_shift_nat: "nat ((4 * int b) mod 64) = 4 * (b mod 16)"
proof -
  have "(4 * b) mod (4 * 16) = 4 * (b mod 16)"
    by (rule mult_mod_right [symmetric])
  then have "int ((4 * b) mod 64) = int (4 * (b mod 16))"
    by simp
  then have "(4 * int b) mod 64 = int (4 * (b mod 16))"
    by (simp add: zmod_int)
  then show ?thesis
    by (simp only: nat_int)
qed

lemma shl64_lane: "shl64 1 (int b * 4) = push_bit (4 * (b mod 16)) 1"
  using lane_shift_nat [of b] by (simp add: shl64_def mult.commute)

lemma shr64_lane: "shr64 x (4 * int b) AND 0xf = nibble x (b mod 16)"
  using lane_shift_nat [of b] by (simp add: shr64_def nibble_def)

lemma shr64_lane_mod: "shr64 x (4 * int (b mod 16)) AND 0xf = nibble x (b mod 16)"
  using shr64_lane [of x "b mod 16"] by simp

lemma prom_rep_presence: "prom_rep m c ov f \<Longrightarrow> i < 64 \<Longrightarrow> bit m i = (0 < f i)"
  by (simp add: prom_rep_def)

lemma prom_rep_header: "prom_rep m c ov f \<Longrightarrow> c = header (psum f 64) (slot_index c)"
  by (simp add: prom_rep_def)

lemma prom_rep_lane:
  "prom_rep m c ov f \<Longrightarrow> i < 64 \<Longrightarrow> unat (nibble (ov (slot_index c + i div 16)) (i mod 16)) = f i"
  by (simp add: prom_rep_def)

lemma prom_rep_promoted: "prom_rep m c ov f \<Longrightarrow> promoted c"
  using promoted_header [of "psum f 64" "slot_index c"] by (simp add: prom_rep_def)

lemma prom_rep_le_15: "prom_rep m c ov f \<Longrightarrow> i < 64 \<Longrightarrow> f i \<le> 15"
proof -
  assume "prom_rep m c ov f" "i < 64"
  then have "f i = unat (nibble (ov (slot_index c + i div 16)) (i mod 16))"
    by (simp add: prom_rep_lane)
  also have "\<dots> < 16"
    unfolding unat_nibble by simp
  finally show ?thesis by simp
qed

lemma psum_bound: "(\<And>i. i < n \<Longrightarrow> f i \<le> k) \<Longrightarrow> psum f n \<le> n * k"
proof (induction n)
  case 0
  show ?case by simp
next
  case (Suc n)
  have "psum f n \<le> n * k"
    using Suc.prems by (intro Suc.IH) simp
  moreover have "f n \<le> k"
    using Suc.prems by simp
  ultimately show ?case
    by (simp add: psum_Suc)
qed

lemma prom_rep_total_le: "prom_rep m c ov f \<Longrightarrow> psum f 64 \<le> 960"
  using psum_bound [of 64 f 15] prom_rep_le_15 [of m c ov f] by simp

lemma ReadCount_promoted:
  assumes rep: "prom_rep (data s g) (counts s g) (overflow s) f" and b: "b < 64"
  shows "ReadCount s g b = int (f b)"
proof (cases "0 < f b")
  case False
  then have "\<not> bit (data s g) b"
    using prom_rep_presence [OF rep b] by simp
  with False b show ?thesis
    by (simp add: ReadCount_def Let_def shr64_bit)
next
  case True
  then have "bit (data s g) b"
    using prom_rep_presence [OF rep b] by simp
  moreover have "counts s g AND 0x8000000000000000 \<noteq> 0"
    using prom_rep_promoted [OF rep] by (simp add: promoted_def)
  moreover have "uint (nibble (overflow s (slot_index (counts s g) + b div 16)) (b mod 16)) = int (f b)"
    using prom_rep_lane [OF rep b] by (metis uint_nat)
  ultimately show ?thesis
    using b
    by (simp add: ReadCount_def Let_def shr64_bit shr64_lane_mod flip: slot_index_def)
qed

section \<open>The promoted form: \<^verbatim>\<open>Increment\<close> and \<^verbatim>\<open>Decrement\<close>\<close>

lemma div_mod_16_eq: "i div 16 = b div 16 \<Longrightarrow> i mod 16 = b mod 16 \<Longrightarrow> i = b" for i b :: nat
  by (metis div_mult_mod_eq)

lemma lanes_bump:
  assumes lanes: "\<And>i. i < 64 \<Longrightarrow> unat (nibble (ov (idx + i div 16)) (i mod 16)) = f i"
    and b: "b < 64" and room: "f b < 15" and i: "i < 64"
  shows "unat (nibble ((ov(idx + b div 16 := ov (idx + b div 16) + push_bit (4 * (b mod 16)) 1))
                 (idx + i div 16)) (i mod 16)) = (f(b := f b + 1)) i"
proof (cases "i div 16 = b div 16")
  case False
  then have "i \<noteq> b" by auto
  with False show ?thesis
    by (simp add: lanes [OF i])
next
  case True
  have fit: "unat (nibble (ov (idx + b div 16)) (b mod 16)) + 1 \<le> 15"
    using lanes [OF b] room by simp
  have "unat (nibble (ov (idx + b div 16) + of_nat 1 * push_bit (4 * (b mod 16)) 1) (i mod 16))
          = (if i mod 16 = b mod 16 then unat (nibble (ov (idx + b div 16)) (b mod 16)) + 1
             else unat (nibble (ov (idx + b div 16)) (i mod 16)))"
    by (rule nibble_add [OF _ _ fit]) simp_all
  then have e: "unat (nibble (ov (idx + b div 16) + push_bit (4 * (b mod 16)) 1) (i mod 16))
          = (if i mod 16 = b mod 16 then f b + 1 else f i)"
    using lanes [OF b] lanes [OF i] by (simp only: True of_nat_1 mult_1)
  show ?thesis
  proof (cases "i = b")
    case True
    with e show ?thesis by simp
  next
    case False
    with div_mod_16_eq [OF True] have "i mod 16 \<noteq> b mod 16" by blast
    with e False True show ?thesis by simp
  qed
qed

lemma lanes_drop:
  assumes lanes: "\<And>i. i < 64 \<Longrightarrow> unat (nibble (ov (idx + i div 16)) (i mod 16)) = f i"
    and b: "b < 64" and pos: "0 < f b" and i: "i < 64"
  shows "unat (nibble ((ov(idx + b div 16 := ov (idx + b div 16) - push_bit (4 * (b mod 16)) 1))
                 (idx + i div 16)) (i mod 16)) = (f(b := f b - 1)) i"
proof (cases "i div 16 = b div 16")
  case False
  then have "i \<noteq> b" by auto
  with False show ?thesis
    by (simp add: lanes [OF i])
next
  case True
  have p: "0 < unat (nibble (ov (idx + b div 16)) (b mod 16))"
    using lanes [OF b] pos by simp
  have "unat (nibble (ov (idx + b div 16) - push_bit (4 * (b mod 16)) 1) (i mod 16))
          = (if i mod 16 = b mod 16 then unat (nibble (ov (idx + b div 16)) (b mod 16)) - 1
             else unat (nibble (ov (idx + b div 16)) (i mod 16)))"
    by (rule nibble_sub [OF _ _ p]) simp_all
  then have e: "unat (nibble (ov (idx + b div 16) - push_bit (4 * (b mod 16)) 1) (i mod 16))
          = (if i mod 16 = b mod 16 then f b - 1 else f i)"
    using lanes [OF b] lanes [OF i] by (simp only: True)
  show ?thesis
  proof (cases "i = b")
    case True
    with e show ?thesis by simp
  next
    case False
    with div_mod_16_eq [OF True] have "i mod 16 \<noteq> b mod 16" by blast
    with e False True show ?thesis by simp
  qed
qed

lemma Increment_promoted_unfold:
  assumes "promoted (counts s g)"
  shows "Increment s g b =
     s\<lparr>counts := (counts s)(g := counts s g + shl64 1 32),
       overflow := (overflow s)(slot_index (counts s g) + b div 16 :=
          overflow s (slot_index (counts s g) + b div 16) + shl64 1 (int b * 4)),
       data := (data s)(g := data s g OR shl64 1 (int b))\<rparr>"
proof -
  have 1: "counts s g AND 0x8000000000000000 \<noteq> 0"
    using assms by (simp add: promoted_def)
  then have "bit (counts s g) 63"
    by (simp add: top_bit_iff)
  then have 2: "counts s g AND 0xc000000000000000 \<noteq> 0"
    by (simp add: top_two_bits_iff)
  show ?thesis
    using 1 2 by (simp add: Increment_def Let_def bump_lane_def slot_index_def)
qed

lemma Increment_promoted:
  assumes rep: "prom_rep (data s g) (counts s g) (overflow s) f" and b: "b < 64"
    and room: "f b < 15"
  shows "prom_rep (data (Increment s g b) g) (counts (Increment s g b) g)
           (overflow (Increment s g b)) (f(b := f b + 1))"
    and "slot_index (counts (Increment s g b) g) = slot_index (counts s g)"
proof -
  define c where "c = counts s g"
  define idx where "idx = slot_index c"
  define T where "T = psum f 64"
  have pr: "promoted (counts s g)"
    using rep by (rule prom_rep_promoted)
  have c: "c = header T idx"
    using prom_rep_header [OF rep] by (simp add: c_def idx_def T_def)
  have idx: "idx < 2 ^ 28"
    unfolding idx_def by (rule slot_index_less)
  have T: "T \<le> 960"
    unfolding T_def using rep by (rule prom_rep_total_le)
  have "counts (Increment s g b) g = c + shl64 1 32"
    unfolding Increment_promoted_unfold [OF pr] by (simp add: c_def)
  also have "\<dots> = header T idx + shl64 1 32"
    by (simp only: c [symmetric])
  also have "\<dots> = header (Suc T) idx"
    using T idx by (intro header_inc) simp_all
  finally have c': "counts (Increment s g b) g = header (Suc T) idx" .
  have si: "slot_index (counts (Increment s g b) g) = idx"
    unfolding c' using idx by (rule slot_index_header)
  show "slot_index (counts (Increment s g b) g) = slot_index (counts s g)"
    using si by (simp add: idx_def c_def)
  have T': "psum (f(b := f b + 1)) 64 = Suc T"
    using psum_inc [of f b 64] b by (simp add: T_def)
  have ov': "overflow (Increment s g b) =
      (overflow s)(idx + b div 16 := overflow s (idx + b div 16) + push_bit (4 * (b mod 16)) 1)"
    unfolding Increment_promoted_unfold [OF pr]
    by (simp add: shl64_lane idx_def c_def)
  have lanes: "unat (nibble (overflow s (idx + i div 16)) (i mod 16)) = f i" if "i < 64" for i
    using prom_rep_lane [OF rep that] by (simp add: idx_def c_def)
  have "63 \<le> T"
    using rep by (simp add: prom_rep_def T_def)
  moreover have "bit (data (Increment s g b) g) i = (0 < (f(b := f b + 1)) i)" if "i < 64" for i
    using prom_rep_presence [OF rep that] b by (auto simp: Increment_data bit_or_iff bit_shl64_1)
  moreover have "unat (nibble (overflow (Increment s g b) (idx + i div 16)) (i mod 16))
                   = (f(b := f b + 1)) i" if "i < 64" for i
    unfolding ov' using lanes b room that by (rule lanes_bump)
  ultimately show "prom_rep (data (Increment s g b) g) (counts (Increment s g b) g)
           (overflow (Increment s g b)) (f(b := f b + 1))"
    unfolding prom_rep_def si T' using c' by simp
qed

lemma Decrement_promoted_fields:
  assumes pr: "promoted (counts s g)" and b: "b < 64"
  defines "idx \<equiv> slot_index (counts s g)"
  defines "ov3 \<equiv> (overflow s)(idx + b div 16 := overflow s (idx + b div 16) - push_bit (4 * (b mod 16)) 1)"
  shows "data (Decrement s g b) =
           (data s)(g := if nibble (overflow s (idx + b div 16)) (b mod 16) = 1
                         then data s g AND NOT (push_bit b 1) else data s g)"
    and "counts (Decrement s g b) =
           (counts s)(g := if total_count (counts s g) < 64 then demote_loop 64 idx ov3 0
                           else counts s g - shl64 1 32)"
    and "overflow (Decrement s g b) =
           (if total_count (counts s g) < 64 then ov3(idx := of_nat (nextFreeOverflow s)) else ov3)"
    and "nextFreeOverflow (Decrement s g b) =
           (if total_count (counts s g) < 64 then idx else nextFreeOverflow s)"
    and "arrayLength (Decrement s g b) = arrayLength s"
    and "overflowLength (Decrement s g b) = overflowLength s"
proof -
  have 1: "counts s g AND 0x8000000000000000 \<noteq> 0"
    using pr by (simp add: promoted_def)
  note defs = Decrement_def Let_def idx_def ov3_def slot_index_def total_count_def
    shl64_lane shr64_lane_mod shl64_nat [OF b]
  show "data (Decrement s g b) =
           (data s)(g := if nibble (overflow s (idx + b div 16)) (b mod 16) = 1
                         then data s g AND NOT (push_bit b 1) else data s g)"
    using 1 by (auto simp: defs)
  show "counts (Decrement s g b) =
           (counts s)(g := if total_count (counts s g) < 64 then demote_loop 64 idx ov3 0
                           else counts s g - shl64 1 32)"
    using 1 by (auto simp: defs)
  show "overflow (Decrement s g b) =
           (if total_count (counts s g) < 64 then ov3(idx := of_nat (nextFreeOverflow s)) else ov3)"
    using 1 by (auto simp: defs)
  show "nextFreeOverflow (Decrement s g b) =
           (if total_count (counts s g) < 64 then idx else nextFreeOverflow s)"
    using 1 by (auto simp: defs)
  show "arrayLength (Decrement s g b) = arrayLength s"
    using 1 by (auto simp: defs)
  show "overflowLength (Decrement s g b) = overflowLength s"
    using 1 by (auto simp: defs)
qed

lemma demote_step_bits:
  fixes f :: "nat \<Rightarrow> nat"
  assumes inv: "\<And>q. q < 64 \<Longrightarrow>
        bit acc q = (\<exists>i. Suc j \<le> i \<and> i < 64 \<and> 0 < f i \<and> psum f (Suc i) - psum f (Suc j) = Suc q)"
    and q: "q < 64" and j: "j < 64"
  shows "bit (if 0 < f j then push_bit (f j - 1) (shl64 acc 1 OR 1) else acc) q
           = (\<exists>i. j \<le> i \<and> i < 64 \<and> 0 < f i \<and> psum f (Suc i) - psum f j = Suc q)"
proof (cases "0 < f j")
  case False
  then have e: "psum f (Suc j) = psum f j" by (simp add: psum_Suc)
  have "(\<exists>i. j \<le> i \<and> i < 64 \<and> 0 < f i \<and> psum f (Suc i) - psum f j = Suc q)
          = (\<exists>i. Suc j \<le> i \<and> i < 64 \<and> 0 < f i \<and> psum f (Suc i) - psum f j = Suc q)"
    using False by (metis Suc_leI le_neq_implies_less Suc_leD)
  with False inv [OF q] show ?thesis
    by (simp add: e)
next
  case True
  define k where "k = f j - 1"
  have k: "f j = Suc k" using True by (simp add: k_def)
  have "bit (push_bit k X) q = (k \<le> q \<and> bit X (q - k))" for X :: u64
    using q by (simp add: bit_push_bit_iff)
  then have "bit (push_bit k (shl64 acc 1 OR 1)) q
               = (k \<le> q \<and> (q - k = 0 \<or> (q - k < 64 \<and> bit acc (q - k - 1))))"
    by (simp only: bit_sentinel)
  then have bits: "bit (push_bit k (shl64 acc 1 OR 1)) q = (k \<le> q \<and> (q = k \<or> bit acc (q - k - 1)))"
    using q by auto
  have split: "psum f (Suc i) - psum f j = (psum f (Suc i) - psum f (Suc j)) + Suc k"
    if "Suc j \<le> i" for i
  proof -
    have "psum f (Suc j) \<le> psum f (Suc i)"
      using that by (intro psum_mono) simp
    then show ?thesis by (simp add: psum_Suc k)
  qed
  have "(k \<le> q \<and> (q = k \<or> bit acc (q - k - 1)))
          = (\<exists>i. j \<le> i \<and> i < 64 \<and> 0 < f i \<and> psum f (Suc i) - psum f j = Suc q)"
  proof
    assume l: "k \<le> q \<and> (q = k \<or> bit acc (q - k - 1))"
    show "\<exists>i. j \<le> i \<and> i < 64 \<and> 0 < f i \<and> psum f (Suc i) - psum f j = Suc q"
    proof (cases "q = k")
      case qk: True
      have "j \<le> j \<and> j < 64 \<and> 0 < f j \<and> psum f (Suc j) - psum f j = Suc q"
        using qk k j by (simp add: psum_Suc)
      then show ?thesis by blast
    next
      case False
      with l have kq: "k < q" and "bit acc (q - k - 1)" by simp_all
      moreover have "q - k - 1 < 64" using q by simp
      ultimately obtain i where i: "Suc j \<le> i" "i < 64" "0 < f i"
          "psum f (Suc i) - psum f (Suc j) = Suc (q - k - 1)"
        using inv by blast
      then have "j \<le> i \<and> i < 64 \<and> 0 < f i \<and> psum f (Suc i) - psum f j = Suc q"
        using split [OF i(1)] kq by simp
      then show ?thesis by blast
    qed
  next
    assume "\<exists>i. j \<le> i \<and> i < 64 \<and> 0 < f i \<and> psum f (Suc i) - psum f j = Suc q"
    then obtain i where i: "j \<le> i" "i < 64" "0 < f i" "psum f (Suc i) - psum f j = Suc q"
      by blast
    show "k \<le> q \<and> (q = k \<or> bit acc (q - k - 1))"
    proof (cases "i = j")
      case True
      with i(4) k show ?thesis by (simp add: psum_Suc)
    next
      case False
      with i(1) have ji: "Suc j \<le> i" by simp
      define q' where "q' = psum f (Suc i) - psum f (Suc j) - 1"
      have "psum f (Suc j) \<le> psum f i"
        using ji by (intro psum_mono) simp
      with i(3) have pos: "0 < psum f (Suc i) - psum f (Suc j)"
        by (simp add: psum_Suc [of f i])
      then have q': "psum f (Suc i) - psum f (Suc j) = Suc q'"
        by (simp add: q'_def)
      with split [OF ji] i(4) have qq: "q = q' + Suc k" by simp
      then have "q' < 64" using q by simp
      moreover have "Suc j \<le> i \<and> i < 64 \<and> 0 < f i \<and> psum f (Suc i) - psum f (Suc j) = Suc q'"
        using ji i q' by simp
      ultimately have "bit acc q'"
        using inv by blast
      with qq show ?thesis by simp
    qed
  qed
  with True bits show ?thesis
    by (simp add: k_def)
qed

lemma demote_loop_Suc:
  assumes lane: "unat (nibble (ov (idx + j div 16)) (j mod 16)) = f j" and j: "j < 64"
  shows "demote_loop (Suc j) idx ov acc
           = demote_loop j idx ov (if 0 < f j then push_bit (f j - 1) (shl64 acc 1 OR 1) else acc)"
proof -
  have f16: "f j < 16"
    using lane [symmetric] unfolding unat_nibble by simp
  have cj: "uint (shr64 (ov (idx + j div 16)) (4 * int j) AND 0xf) = int (f j)"
    unfolding shr64_lane using lane by (metis uint_nat)
  have sh: "shl64 x (int (f j) - 1) = push_bit (f j - 1) x" if "0 < f j" for x
  proof -
    have "int (f j) - 1 = int (f j - 1)"
      using that by simp
    moreover have "f j - 1 < 64"
      using f16 by simp
    ultimately show ?thesis
      by (simp only: shl64_nat)
  qed
  show ?thesis
    by (simp add: Let_def cj sh del: shl64_one)
qed

lemma demote_loop_bits:
  fixes f :: "nat \<Rightarrow> nat"
  assumes lanes: "\<And>i. i < 64 \<Longrightarrow> unat (nibble (ov (idx + i div 16)) (i mod 16)) = f i"
  shows "j \<le> 64 \<Longrightarrow>
    (\<And>q. q < 64 \<Longrightarrow>
        bit acc q = (\<exists>i. j \<le> i \<and> i < 64 \<and> 0 < f i \<and> psum f (Suc i) - psum f j = Suc q)) \<Longrightarrow>
    q < 64 \<Longrightarrow>
    bit (demote_loop j idx ov acc) q = (\<exists>i<64. 0 < f i \<and> psum f (Suc i) = Suc q)"
proof (induction j arbitrary: acc q)
  case 0
  from 0(2) [OF 0(3)] show ?case by simp
next
  case (Suc j)
  then have j: "j < 64" by simp
  define acc' where "acc' = (if 0 < f j then push_bit (f j - 1) (shl64 acc 1 OR 1) else acc)"
  have step: "demote_loop (Suc j) idx ov acc = demote_loop j idx ov acc'"
    unfolding acc'_def using lanes [OF j] j by (rule demote_loop_Suc)
  have "bit (demote_loop j idx ov acc') q = (\<exists>i<64. 0 < f i \<and> psum f (Suc i) = Suc q)"
  proof (rule Suc.IH)
    show "j \<le> 64" using j by simp
  next
    fix q' :: nat assume q': "q' < 64"
    show "bit acc' q' = (\<exists>i. j \<le> i \<and> i < 64 \<and> 0 < f i \<and> psum f (Suc i) - psum f j = Suc q')"
      unfolding acc'_def using Suc.prems(2) q' j by (rule demote_step_bits)
  next
    show "q < 64" by (rule Suc.prems(3))
  qed
  then show ?case by (simp only: step)
qed

lemma demote_loop_inline:
  fixes f :: "nat \<Rightarrow> nat"
  assumes lanes: "\<And>i. i < 64 \<Longrightarrow> unat (nibble (ov (idx + i div 16)) (i mod 16)) = f i"
    and pres: "\<And>i. i < 64 \<Longrightarrow> bit m i = (0 < f i)"
    and total: "psum f 64 \<le> 63"
  shows "inline_rep m (demote_loop 64 idx ov 0) f"
proof -
  have "bit (demote_loop 64 idx ov 0) q = (\<exists>i<64. 0 < f i \<and> psum f (Suc i) = Suc q)"
    if "q < 64" for q
    using lanes _ _ that
  proof (rule demote_loop_bits)
    show "(64::nat) \<le> 64" by simp
  next
    fix q' :: nat
    show "bit (0 :: u64) q' = (\<exists>i. 64 \<le> i \<and> i < 64 \<and> 0 < f i \<and> psum f (Suc i) - psum f 64 = Suc q')"
      by simp
  qed
  with pres total show ?thesis
    unfolding inline_rep_def by blast
qed

lemma Decrement_promoted:
  assumes rep: "prom_rep (data s g) (counts s g) (overflow s) f" and b: "b < 64"
    and pos: "0 < f b"
  shows "if 64 \<le> psum f 64
         then prom_rep (data (Decrement s g b) g) (counts (Decrement s g b) g)
                (overflow (Decrement s g b)) (f(b := f b - 1))
              \<and> slot_index (counts (Decrement s g b) g) = slot_index (counts s g)
         else inline_rep (data (Decrement s g b) g) (counts (Decrement s g b) g) (f(b := f b - 1))"
proof -
  define c where "c = counts s g"
  define idx where "idx = slot_index c"
  define T where "T = psum f 64"
  define f' where "f' = f(b := f b - 1)"
  define ov3 where "ov3 = (overflow s)(idx + b div 16 :=
                       overflow s (idx + b div 16) - push_bit (4 * (b mod 16)) 1)"
  have pr: "promoted (counts s g)"
    using rep by (rule prom_rep_promoted)
  note fields = Decrement_promoted_fields [OF pr b, folded c_def, folded idx_def, folded ov3_def]
  have c: "c = header T idx"
    using prom_rep_header [OF rep] by (simp add: c_def idx_def T_def)
  have idx: "idx < 2 ^ 28"
    unfolding idx_def by (rule slot_index_less)
  have T: "T \<le> 960" "63 \<le> T"
    using prom_rep_total_le [OF rep] rep by (simp_all add: T_def prom_rep_def)
  have tc: "total_count c = T"
    unfolding c using T idx by (intro total_count_header) simp_all
  have T': "psum f' 64 = T - 1"
    using psum_dec [of f b 64] pos b by (simp add: f'_def T_def)
  have lanes: "unat (nibble (overflow s (idx + i div 16)) (i mod 16)) = f i" if "i < 64" for i
    using prom_rep_lane [OF rep that] by (simp add: idx_def c_def)
  have lanes': "unat (nibble (ov3 (idx + i div 16)) (i mod 16)) = f' i" if "i < 64" for i
    unfolding ov3_def f'_def using lanes b pos that by (rule lanes_drop)
  have one: "(nibble (overflow s (idx + b div 16)) (b mod 16) = 1) = (f b = 1)"
    using lanes [OF b] by (metis unat_1 word_unat_eq_iff)
  have pres': "bit (data (Decrement s g b) g) i = (0 < f' i)" if "i < 64" for i
  proof (cases "i = b")
    case True
    with prom_rep_presence [OF rep b] pos show ?thesis
      by (auto simp: fields(1) one f'_def bit_simps)
  next
    case False
    with prom_rep_presence [OF rep that] that show ?thesis
      by (auto simp: fields(1) one f'_def bit_simps)
  qed
  show ?thesis
  proof (cases "64 \<le> T")
    case True
    have "c - shl64 1 32 = header (T - 1) idx"
      unfolding c using True T idx by (intro header_dec) simp_all
    with True have c': "counts (Decrement s g b) g = header (T - 1) idx"
      by (simp add: fields(2) tc)
    have si: "slot_index (counts (Decrement s g b) g) = idx"
      unfolding c' using idx by (rule slot_index_header)
    have ov': "overflow (Decrement s g b) = ov3"
      using True by (simp add: fields(3) tc)
    have "prom_rep (data (Decrement s g b) g) (counts (Decrement s g b) g)
                (overflow (Decrement s g b)) f'"
      unfolding prom_rep_def si T' ov' using c' pres' lanes' True by simp
    with True si show ?thesis
      by (simp add: T_def f'_def idx_def c_def)
  next
    case False
    then have c': "counts (Decrement s g b) g = demote_loop 64 idx ov3 0"
      by (simp add: fields(2) tc)
    have "inline_rep (data (Decrement s g b) g) (demote_loop 64 idx ov3 0) f'"
      using lanes' pres'
    proof (rule demote_loop_inline)
      show "psum f' 64 \<le> 63" using False by (simp add: T')
    qed
    with False show ?thesis
      by (simp add: c' T_def f'_def)
  qed
qed

section \<open>Promotion\<close>

lemma promote_loop_frame:
  "a < idx \<or> idx + 4 \<le> a \<Longrightarrow> i + r \<le> 64 \<Longrightarrow>
     overflow (promote_loop r i g idx s) a = overflow s a"
proof (induction r arbitrary: i s)
  case 0
  show ?case by simp
next
  case (Suc r)
  have "i < 64" using Suc.prems(2) by simp
  then have "i div 16 < 4" by simp
  with Suc.prems(1) have ne: "a \<noteq> idx + i div 16" by auto
  have "Suc i + r \<le> 64" using Suc.prems(2) by simp
  from Suc.IH [OF Suc.prems(1) this] ne show ?case
    by (simp add: Let_def)
qed

lemma promote_loop_lanes:
  fixes f :: "nat \<Rightarrow> nat"
  assumes le: "\<And>i. i < 64 \<Longrightarrow> f i \<le> 15"
  shows "inline_rep (data s g) (counts s g) f \<Longrightarrow> i + r = 64 \<Longrightarrow>
    (\<And>i'. i' < 64 \<Longrightarrow>
       unat (nibble (overflow s (idx + i' div 16)) (i' mod 16)) = (if i' < i then f i' else 0)) \<Longrightarrow>
    i' < 64 \<Longrightarrow>
    unat (nibble (overflow (promote_loop r i g idx s) (idx + i' div 16)) (i' mod 16)) = f i'"
proof (induction r arbitrary: i s i')
  case 0
  then have "i = 64" by simp
  with 0(3) [OF 0(4)] 0(4) show ?case by simp
next
  case (Suc r)
  have i: "i < 64" using Suc.prems(2) by simp
  define w where "w = idx + i div 16"
  define s' where "s' = s\<lparr>overflow := (overflow s)(w := overflow s w + of_nat (f i) * push_bit (4 * (i mod 16)) 1)\<rparr>"
  have rc: "ReadCount s g i = int (f i)"
    using Suc.prems(1) i by (rule ReadCount_inline)
  have step: "promote_loop (Suc r) i g idx s = promote_loop r (Suc i) g idx s'"
    by (simp add: Let_def rc shl64_lane s'_def w_def)
  have zero: "unat (nibble (overflow s w) (i mod 16)) = 0"
    using Suc.prems(3) [OF i] by (simp add: w_def)
  have fit: "unat (nibble (overflow s w) (i mod 16)) + f i \<le> 15"
    using zero le [OF i] by simp
  have "unat (nibble (overflow (promote_loop r (Suc i) g idx s') (idx + i' div 16)) (i' mod 16)) = f i'"
  proof (rule Suc.IH)
    show "inline_rep (data s' g) (counts s' g) f"
      using Suc.prems(1) by (simp add: s'_def)
  next
    show "Suc i + r = 64" using Suc.prems(2) by simp
  next
    show "i' < 64" by (rule Suc.prems(4))
  next
    fix k :: nat assume k: "k < 64"
    show "unat (nibble (overflow s' (idx + k div 16)) (k mod 16)) = (if k < Suc i then f k else 0)"
    proof (cases "k div 16 = i div 16")
      case False
      then have "k \<noteq> i" by auto
      with False Suc.prems(3) [OF k] show ?thesis
        by (simp add: s'_def w_def less_Suc_eq)
    next
      case True
      have "unat (nibble (overflow s w + of_nat (f i) * push_bit (4 * (i mod 16)) 1) (k mod 16))
              = (if k mod 16 = i mod 16 then unat (nibble (overflow s w) (i mod 16)) + f i
                 else unat (nibble (overflow s w) (k mod 16)))"
        by (rule nibble_add [OF _ _ fit]) simp_all
      then have e: "unat (nibble (overflow s' (idx + k div 16)) (k mod 16))
              = (if k mod 16 = i mod 16 then f i else (if k < i then f k else 0))"
        using True Suc.prems(3) [OF k] zero by (simp add: s'_def w_def)
      show ?thesis
      proof (cases "k = i")
        case True
        with e show ?thesis by simp
      next
        case False
        with div_mod_16_eq [OF True] have "k mod 16 \<noteq> i mod 16" by blast
        with e False show ?thesis by (simp add: less_Suc_eq)
      qed
    qed
  qed
  then show ?case by (simp only: step)
qed

lemma inline_full_total:
  assumes rep: "inline_rep m c f" and full: "c AND 0xc000000000000000 \<noteq> 0"
  shows "psum f 64 = 63"
proof -
  from full have "bit c 62 \<or> bit c 63"
    by (simp add: top_two_bits_iff)
  with inline_rep_top_clear [OF rep] have "bit c 62" by simp
  then obtain i where i: "i < 64" "psum f (Suc i) = 63"
    by (auto simp: inline_rep_bit [OF rep])
  have "psum f (Suc i) \<le> psum f 64"
    using i(1) by (intro psum_mono) simp
  with i(2) inline_rep_total [OF rep] show ?thesis by simp
qed

lemma Increment_promote_fields:
  assumes full: "counts s g AND 0xc000000000000000 \<noteq> 0"
    and np: "counts s g AND 0x8000000000000000 = 0"
    and avail: "nextFreeOverflow s < overflowLength s"
  defines "idx \<equiv> nextFreeOverflow s"
  defines "s3 \<equiv> promote_loop 64 0 g idx
      (s\<lparr>nextFreeOverflow := unat (overflow s idx),
         overflow := (overflow s)(idx := 0, idx + 1 := 0, idx + 2 := 0, idx + 3 := 0)\<rparr>)"
  shows "counts (Increment s g b) = (counts s)(g := header 64 idx)"
    and "nextFreeOverflow (Increment s g b) = unat (overflow s idx)"
    and "overflow (Increment s g b) =
           (overflow s3)(idx + b div 16 := overflow s3 (idx + b div 16) + push_bit (4 * (b mod 16)) 1)"
    and "overflowLength (Increment s g b) = overflowLength s"
proof -
  have h: "0x8000000000000000 OR shl64 64 32 OR of_nat idx = header 64 idx"
    by (simp add: header_def shl64_def)
  note defs = Increment_def Let_def idx_def s3_def bump_lane_def shl64_lane
  show "counts (Increment s g b) = (counts s)(g := header 64 idx)"
    using full np avail h by (simp add: defs)
  show "nextFreeOverflow (Increment s g b) = unat (overflow s idx)"
    using full np avail by (simp add: defs)
  show "overflow (Increment s g b) =
           (overflow s3)(idx + b div 16 := overflow s3 (idx + b div 16) + push_bit (4 * (b mod 16)) 1)"
    using full np avail by (simp add: defs)
  show "overflowLength (Increment s g b) = overflowLength s"
    using full np avail by (simp add: defs)
qed

lemma Increment_promote:
  assumes rep: "inline_rep (data s g) (counts s g) f" and b: "b < 64"
    and full: "counts s g AND 0xc000000000000000 \<noteq> 0"
    and avail: "nextFreeOverflow s < overflowLength s"
    and small: "overflowLength s \<le> 2 ^ 28"
    and le: "\<And>i. i < 64 \<Longrightarrow> f i \<le> 15" and room: "f b < 15"
  shows "prom_rep (data (Increment s g b) g) (counts (Increment s g b) g)
           (overflow (Increment s g b)) (f(b := f b + 1))"
    and "slot_index (counts (Increment s g b) g) = nextFreeOverflow s"
    and "a < nextFreeOverflow s \<or> nextFreeOverflow s + 4 \<le> a \<Longrightarrow>
           overflow (Increment s g b) a = overflow s a"
proof -
  define idx where "idx = nextFreeOverflow s"
  define s2 where "s2 = s\<lparr>nextFreeOverflow := unat (overflow s idx),
         overflow := (overflow s)(idx := 0, idx + 1 := 0, idx + 2 := 0, idx + 3 := 0)\<rparr>"
  define s3 where "s3 = promote_loop 64 0 g idx s2"
  have np: "counts s g AND 0x8000000000000000 = 0"
    using rep by (rule inline_rep_not_promoted)
  note fields = Increment_promote_fields [OF full np avail, folded idx_def, folded s2_def,
      folded s3_def]
  have idx: "idx < 2 ^ 28"
    using avail small by (simp add: idx_def)
  have T: "psum f 64 = 63"
    using rep full by (rule inline_full_total)
  have c': "counts (Increment s g b) g = header 64 idx"
    by (simp add: fields(1))
  have si: "slot_index (counts (Increment s g b) g) = idx"
    unfolding c' using idx by (rule slot_index_header)
  show "slot_index (counts (Increment s g b) g) = nextFreeOverflow s"
    using si by (simp add: idx_def)
  have rep2: "inline_rep (data s2 g) (counts s2 g) f"
    using rep by (simp add: s2_def)
  have zero: "unat (nibble (overflow s2 (idx + i div 16)) (i mod 16)) = (if i < 0 then f i else 0)"
    if "i < 64" for i
  proof -
    have "i div 16 < 4" using that by simp
    then have "overflow s2 (idx + i div 16) = 0"
      by (auto simp: s2_def)
    then show ?thesis
      by (simp add: unat_nibble)
  qed
  have lanes3: "unat (nibble (overflow s3 (idx + i div 16)) (i mod 16)) = f i" if "i < 64" for i
    unfolding s3_def
  proof (rule promote_loop_lanes [OF le rep2])
    show "0 + 64 = (64::nat)" by simp
  qed (use zero that in simp_all)
  have lanes': "unat (nibble (overflow (Increment s g b) (idx + i div 16)) (i mod 16))
                  = (f(b := f b + 1)) i" if "i < 64" for i
    unfolding fields(3) using lanes3 b room that by (rule lanes_bump)
  have pres': "bit (data (Increment s g b) g) i = (0 < (f(b := f b + 1)) i)" if "i < 64" for i
    using inline_rep_presence [OF rep that] b by (auto simp: Increment_data bit_or_iff bit_shl64_1)
  have T': "psum (f(b := f b + 1)) 64 = 64"
    using psum_inc [of f b 64] b T by simp
  show "prom_rep (data (Increment s g b) g) (counts (Increment s g b) g)
           (overflow (Increment s g b)) (f(b := f b + 1))"
    unfolding prom_rep_def si T' using c' pres' lanes' by simp
  show "overflow (Increment s g b) a = overflow s a"
    if a: "a < nextFreeOverflow s \<or> nextFreeOverflow s + 4 \<le> a"
  proof -
    from a have a': "a < idx \<or> idx + 4 \<le> a" by (simp add: idx_def)
    have "b div 16 < 4" using b by simp
    with a' have "a \<noteq> idx + b div 16" by auto
    then have "overflow (Increment s g b) a = overflow s3 a"
      by (simp add: fields(3))
    also have "\<dots> = overflow s2 a"
      unfolding s3_def using a' by (rule promote_loop_frame) simp
    also have "\<dots> = overflow s a"
      using a' by (auto simp: s2_def)
    finally show ?thesis .
  qed
qed

section \<open>The invariant of the filter\<close>

lemma chain_cong:
  "(\<And>x. x \<in> set xs \<Longrightarrow> ov' x = ov x) \<Longrightarrow> chain ov' len h xs = chain ov len h xs"
  by (induction xs arbitrary: h) simp_all

lemma slot_sep:
  fixes x y :: nat
  assumes "4 dvd x" and "4 dvd y" and "x \<noteq> y"
  shows "y < x \<or> x + 4 \<le> y"
proof -
  obtain k where x: "x = 4 * k" using assms(1) by (auto simp: dvd_def)
  obtain l where y: "y = 4 * l" using assms(2) by (auto simp: dvd_def)
  from assms(3) have "k \<noteq> l" by (auto simp: x y)
  then show ?thesis unfolding x y by arith
qed

lemma InvI:
  assumes "overflowLength s \<le> 2 ^ 28" and "nextFreeOverflow s < 2 ^ 64"
    and "\<And>g i. g < arrayLength s \<Longrightarrow> i < 64 \<Longrightarrow> cnt g i \<le> 15"
    and "\<And>g. g < arrayLength s \<Longrightarrow> group_ok s (cnt g) g"
    and "\<And>g h. g < arrayLength s \<Longrightarrow> h < arrayLength s \<Longrightarrow> promoted (counts s g) \<Longrightarrow>
           promoted (counts s h) \<Longrightarrow> slot_index (counts s g) = slot_index (counts s h) \<Longrightarrow> g = h"
    and "chain (overflow s) (overflowLength s) (nextFreeOverflow s) fl" and "distinct fl"
    and "\<And>x. x \<in> set fl \<Longrightarrow> is_slot (overflowLength s) x"
    and "\<And>x. x \<in> set fl \<Longrightarrow> \<not> owned s x"
    and "\<And>x. is_slot (overflowLength s) x \<Longrightarrow> x \<notin> set fl \<Longrightarrow> owned s x"
  shows "Inv s cnt fl"
  unfolding Inv_def using assms by blast

lemma Inv_small: "Inv s cnt fl \<Longrightarrow> overflowLength s \<le> 2 ^ 28"
  and Inv_next: "Inv s cnt fl \<Longrightarrow> nextFreeOverflow s < 2 ^ 64"
  and Inv_le: "Inv s cnt fl \<Longrightarrow> g < arrayLength s \<Longrightarrow> i < 64 \<Longrightarrow> cnt g i \<le> 15"
  and Inv_group: "Inv s cnt fl \<Longrightarrow> g < arrayLength s \<Longrightarrow> group_ok s (cnt g) g"
  and Inv_slots: "Inv s cnt fl \<Longrightarrow> g < arrayLength s \<Longrightarrow> h < arrayLength s \<Longrightarrow>
      promoted (counts s g) \<Longrightarrow> promoted (counts s h) \<Longrightarrow>
      slot_index (counts s g) = slot_index (counts s h) \<Longrightarrow> g = h"
  and Inv_chain: "Inv s cnt fl \<Longrightarrow> chain (overflow s) (overflowLength s) (nextFreeOverflow s) fl"
  and Inv_distinct: "Inv s cnt fl \<Longrightarrow> distinct fl"
  and Inv_free_slot: "Inv s cnt fl \<Longrightarrow> x \<in> set fl \<Longrightarrow> is_slot (overflowLength s) x"
  and Inv_free_unowned: "Inv s cnt fl \<Longrightarrow> x \<in> set fl \<Longrightarrow> \<not> owned s x"
  and Inv_cover: "Inv s cnt fl \<Longrightarrow> is_slot (overflowLength s) x \<Longrightarrow> x \<notin> set fl \<Longrightarrow> owned s x"
  unfolding Inv_def by blast+

lemma group_ok_frame:
  assumes ok: "group_ok s f h"
    and c: "counts s' h = counts s h" and d: "data s' h = data s h"
    and ol: "overflowLength s' = overflowLength s"
    and ov: "\<And>a. promoted (counts s h) \<Longrightarrow> slot_index (counts s h) \<le> a \<Longrightarrow>
               a < slot_index (counts s h) + 4 \<Longrightarrow> overflow s' a = overflow s a"
  shows "group_ok s' f h"
proof (cases "promoted (counts s h)")
  case False
  with ok show ?thesis by (simp add: group_ok_def c d)
next
  case True
  have "overflow s' (slot_index (counts s h) + i div 16) = overflow s (slot_index (counts s h) + i div 16)"
    if "i < 64" for i
  proof (rule ov [OF True])
    show "slot_index (counts s h) \<le> slot_index (counts s h) + i div 16" by simp
    show "slot_index (counts s h) + i div 16 < slot_index (counts s h) + 4"
      using that by simp
  qed
  with True ok show ?thesis
    by (simp add: group_ok_def c d ol prom_rep_def)
qed

lemma owned_slot: "Inv s cnt fl \<Longrightarrow> g < arrayLength s \<Longrightarrow> promoted (counts s g) \<Longrightarrow>
    is_slot (overflowLength s) (slot_index (counts s g))"
  using Inv_group [of s cnt fl g] by (simp add: group_ok_def)

lemma is_slot_dvd: "is_slot len x \<Longrightarrow> 4 dvd x"
  and is_slot_less: "is_slot len x \<Longrightarrow> x < len"
  by (simp_all add: is_slot_def)

lemma slot_disjoint:
  fixes x y a :: nat
  assumes "4 dvd x" and "4 dvd y" and "x \<noteq> y" and "y \<le> a" and "a < y + 4"
  shows "a < x \<or> x + 4 \<le> a"
  using slot_sep [OF assms(1,2,3)] slot_sep [OF assms(2,1)] assms(3,4,5) by auto

lemma Inv_keep:
  assumes inv: "Inv s cnt fl" and g: "g < arrayLength s"
    and al: "arrayLength s' = arrayLength s" and ol: "overflowLength s' = overflowLength s"
    and nf: "nextFreeOverflow s' = nextFreeOverflow s"
    and oth: "\<And>h. h \<noteq> g \<Longrightarrow> counts s' h = counts s h \<and> data s' h = data s h"
    and st: "promoted (counts s' g) = promoted (counts s g)"
    and sl: "promoted (counts s g) \<Longrightarrow> slot_index (counts s' g) = slot_index (counts s g)"
    and ovf: "\<And>a. \<not> promoted (counts s g) \<or> a < slot_index (counts s g)
                  \<or> slot_index (counts s g) + 4 \<le> a \<Longrightarrow> overflow s' a = overflow s a"
    and gok: "group_ok s' f' g" and le: "\<And>i. i < 64 \<Longrightarrow> f' i \<le> 15"
  shows "Inv s' (cnt(g := f')) fl"
proof -
  have pr: "promoted (counts s' h) = promoted (counts s h)" for h
    using st oth [of h] by (cases "h = g") simp_all
  have si: "slot_index (counts s' h) = slot_index (counts s h)" if "promoted (counts s h)" for h
    using sl oth [of h] that by (cases "h = g") simp_all
  have own: "owned s' x = owned s x" for x
    unfolding owned_def al using pr si by metis
  have away: "overflow s' a = overflow s a"
    if "4 dvd x" "x \<le> a" "a < x + 4" "\<not> (promoted (counts s g) \<and> slot_index (counts s g) = x)"
    for x a
  proof (rule ovf)
    show "\<not> promoted (counts s g) \<or> a < slot_index (counts s g) \<or> slot_index (counts s g) + 4 \<le> a"
    proof (cases "promoted (counts s g)")
      case False
      then show ?thesis by simp
    next
      case True
      then have "4 dvd slot_index (counts s g)"
        using owned_slot [OF inv g] by (simp add: is_slot_dvd)
      moreover have "slot_index (counts s g) \<noteq> x"
        using that(4) True by simp
      ultimately show ?thesis
        using slot_disjoint [OF _ that(1) _ that(2,3)] by simp
    qed
  qed
  show ?thesis
  proof (rule InvI)
    show "overflowLength s' \<le> 2 ^ 28"
      using Inv_small [OF inv] by (simp add: ol)
    show "nextFreeOverflow s' < 2 ^ 64"
      using Inv_next [OF inv] by (simp add: nf)
  next
    fix h i :: nat assume "h < arrayLength s'" "i < 64"
    then show "(cnt(g := f')) h i \<le> 15"
      using le Inv_le [OF inv, of h i] by (simp add: al)
  next
    fix h :: nat assume h: "h < arrayLength s'"
    show "group_ok s' ((cnt(g := f')) h) h"
    proof (cases "h = g")
      case True
      with gok show ?thesis by simp
    next
      case False
      have hs: "h < arrayLength s" using h by (simp add: al)
      have "group_ok s' (cnt h) h"
      proof (rule group_ok_frame [OF Inv_group [OF inv hs]])
        show "counts s' h = counts s h" "data s' h = data s h"
          using oth [OF False] by simp_all
        show "overflowLength s' = overflowLength s" by (rule ol)
      next
        fix a :: nat assume a: "promoted (counts s h)" "slot_index (counts s h) \<le> a"
          "a < slot_index (counts s h) + 4"
        show "overflow s' a = overflow s a"
        proof (rule away [OF _ a(2,3)])
          show "4 dvd slot_index (counts s h)"
            using owned_slot [OF inv hs a(1)] by (simp add: is_slot_dvd)
          show "\<not> (promoted (counts s g) \<and> slot_index (counts s g) = slot_index (counts s h))"
            using Inv_slots [OF inv g hs _ a(1)] False by auto
        qed
      qed
      with False show ?thesis by simp
    qed
  next
    fix h k :: nat assume "h < arrayLength s'" "k < arrayLength s'" "promoted (counts s' h)"
      "promoted (counts s' k)" "slot_index (counts s' h) = slot_index (counts s' k)"
    then show "h = k"
      using Inv_slots [OF inv, of h k] by (simp add: al pr si)
  next
    have "chain (overflow s') (overflowLength s) (nextFreeOverflow s) fl
            = chain (overflow s) (overflowLength s) (nextFreeOverflow s) fl"
    proof (rule chain_cong)
      fix x :: nat assume x: "x \<in> set fl"
      show "overflow s' x = overflow s x"
      proof (rule away)
        show "4 dvd x" using Inv_free_slot [OF inv x] by (rule is_slot_dvd)
        show "x \<le> x" "x < x + 4" by simp_all
        show "\<not> (promoted (counts s g) \<and> slot_index (counts s g) = x)"
          using Inv_free_unowned [OF inv x] g by (auto simp: owned_def)
      qed
    qed
    then show "chain (overflow s') (overflowLength s') (nextFreeOverflow s') fl"
      using Inv_chain [OF inv] by (simp add: ol nf)
    show "distinct fl" by (rule Inv_distinct [OF inv])
  next
    fix x :: nat assume "x \<in> set fl"
    then show "is_slot (overflowLength s') x" "\<not> owned s' x"
      using Inv_free_slot [OF inv] Inv_free_unowned [OF inv] by (simp_all add: ol own)
  next
    fix x :: nat assume "is_slot (overflowLength s') x" "x \<notin> set fl"
    then show "owned s' x"
      using Inv_cover [OF inv] by (simp add: ol own)
  qed
qed

lemma Inv_alloc:
  assumes inv: "Inv s cnt fl" and g: "g < arrayLength s"
    and al: "arrayLength s' = arrayLength s" and ol: "overflowLength s' = overflowLength s"
    and oth: "\<And>h. h \<noteq> g \<Longrightarrow> counts s' h = counts s h \<and> data s' h = data s h"
    and np: "\<not> promoted (counts s g)" and pr': "promoted (counts s' g)"
    and sl: "slot_index (counts s' g) = nextFreeOverflow s"
    and avail: "nextFreeOverflow s < overflowLength s"
    and nf: "nextFreeOverflow s' = unat (overflow s (nextFreeOverflow s))"
    and ovf: "\<And>a. a < nextFreeOverflow s \<or> nextFreeOverflow s + 4 \<le> a \<Longrightarrow>
                overflow s' a = overflow s a"
    and gok: "group_ok s' f' g" and le: "\<And>i. i < 64 \<Longrightarrow> f' i \<le> 15"
  shows "Inv s' (cnt(g := f')) (tl fl)"
proof -
  define idx where "idx = nextFreeOverflow s"
  obtain fl0 where fl: "fl = idx # fl0"
    using Inv_chain [OF inv] avail by (cases fl) (simp_all add: idx_def)
  have ch0: "chain (overflow s) (overflowLength s) (unat (overflow s idx)) fl0"
    using Inv_chain [OF inv] by (simp add: fl)
  have idx_slot: "is_slot (overflowLength s) idx" and idx_free: "\<not> owned s idx"
    using Inv_free_slot [OF inv, of idx] Inv_free_unowned [OF inv, of idx] by (simp_all add: fl)
  have idx_notin: "idx \<notin> set fl0" and d0: "distinct fl0"
    using Inv_distinct [OF inv] by (simp_all add: fl)
  have pr_oth: "promoted (counts s' h) = promoted (counts s h)" if "h \<noteq> g" for h
    using oth [OF that] by simp
  have si_oth: "slot_index (counts s' h) = slot_index (counts s h)" if "h \<noteq> g" for h
    using oth [OF that] by simp
  have own: "owned s' x = (owned s x \<or> x = idx)" for x
  proof
    assume "owned s' x"
    then obtain h where h: "h < arrayLength s" "promoted (counts s' h)" "slot_index (counts s' h) = x"
      by (auto simp: owned_def al)
    show "owned s x \<or> x = idx"
    proof (cases "h = g")
      case True
      with h sl show ?thesis by (simp add: idx_def)
    next
      case False
      with h pr_oth [OF False] si_oth [OF False] show ?thesis
        by (auto simp: owned_def)
    qed
  next
    assume "owned s x \<or> x = idx"
    then show "owned s' x"
    proof
      assume "owned s x"
      then obtain h where h: "h < arrayLength s" "promoted (counts s h)" "slot_index (counts s h) = x"
        by (auto simp: owned_def)
      with np have "h \<noteq> g" by auto
      with h pr_oth [OF this] si_oth [OF this] show ?thesis
        by (auto simp: owned_def al)
    next
      assume "x = idx"
      with g pr' sl show ?thesis
        by (auto simp: owned_def al idx_def)
    qed
  qed
  have away: "overflow s' a = overflow s a"
    if "4 dvd x" "x \<le> a" "a < x + 4" "x \<noteq> idx" for x a
  proof -
    have "4 dvd idx" using idx_slot by (rule is_slot_dvd)
    then have "a < idx \<or> idx + 4 \<le> a"
      using that(1) _ that(2,3) by (rule slot_disjoint) (use that(4) in simp)
    then show ?thesis
      using ovf [of a] by (simp add: idx_def)
  qed
  have "Inv s' (cnt(g := f')) fl0"
  proof (rule InvI)
    show "overflowLength s' \<le> 2 ^ 28"
      using Inv_small [OF inv] by (simp add: ol)
    show "nextFreeOverflow s' < 2 ^ 64"
      unfolding nf using unsigned_less [of "overflow s (nextFreeOverflow s)"] by simp
  next
    fix h i :: nat assume "h < arrayLength s'" "i < 64"
    then show "(cnt(g := f')) h i \<le> 15"
      using le Inv_le [OF inv, of h i] by (simp add: al)
  next
    fix h :: nat assume h: "h < arrayLength s'"
    show "group_ok s' ((cnt(g := f')) h) h"
    proof (cases "h = g")
      case True
      with gok show ?thesis by simp
    next
      case False
      have hs: "h < arrayLength s" using h by (simp add: al)
      have "group_ok s' (cnt h) h"
      proof (rule group_ok_frame [OF Inv_group [OF inv hs]])
        show "counts s' h = counts s h" "data s' h = data s h"
          using oth [OF False] by simp_all
        show "overflowLength s' = overflowLength s" by (rule ol)
      next
        fix a :: nat assume a: "promoted (counts s h)" "slot_index (counts s h) \<le> a"
          "a < slot_index (counts s h) + 4"
        show "overflow s' a = overflow s a"
        proof (rule away [OF _ a(2,3)])
          show "4 dvd slot_index (counts s h)"
            using owned_slot [OF inv hs a(1)] by (simp add: is_slot_dvd)
          show "slot_index (counts s h) \<noteq> idx"
            using idx_free hs a(1) by (auto simp: owned_def)
        qed
      qed
      with False show ?thesis by simp
    qed
  next
    fix h k :: nat assume hk: "h < arrayLength s'" "k < arrayLength s'" "promoted (counts s' h)"
      "promoted (counts s' k)" "slot_index (counts s' h) = slot_index (counts s' k)"
    show "h = k"
    proof (rule ccontr)
      assume ne: "h \<noteq> k"
      have False if "x = g" "y \<noteq> g" "y < arrayLength s" "promoted (counts s' y)"
        "slot_index (counts s' x) = slot_index (counts s' y)" for x y
      proof -
        have "owned s (slot_index (counts s y))"
          using that(3,4) pr_oth [OF that(2)] by (auto simp: owned_def)
        moreover have "slot_index (counts s y) = idx"
          using that(1,5) sl si_oth [OF that(2)] by (simp add: idx_def)
        ultimately show False using idx_free by simp
      qed
      note clash = this
      show False
      proof (cases "h = g")
        case True
        with ne have "k \<noteq> g" by simp
        from clash [OF True this] hk show False by (simp add: al)
      next
        case hg: False
        show False
        proof (cases "k = g")
          case True
          from clash [OF True hg] hk show False by (simp add: al)
        next
          case False
          with hg hk ne Inv_slots [OF inv, of h k] show False
            by (simp add: al pr_oth si_oth)
        qed
      qed
    qed
  next
    have "chain (overflow s') (overflowLength s) (unat (overflow s idx)) fl0
            = chain (overflow s) (overflowLength s) (unat (overflow s idx)) fl0"
    proof (rule chain_cong)
      fix x :: nat assume x: "x \<in> set fl0"
      show "overflow s' x = overflow s x"
      proof (rule away)
        show "4 dvd x" using Inv_free_slot [OF inv, of x] x by (simp add: fl is_slot_dvd)
        show "x \<le> x" "x < x + 4" by simp_all
        show "x \<noteq> idx" using x idx_notin by auto
      qed
    qed
    then show "chain (overflow s') (overflowLength s') (nextFreeOverflow s') fl0"
      using ch0 by (simp add: ol nf idx_def)
    show "distinct fl0" by (rule d0)
  next
    fix x :: nat assume x: "x \<in> set fl0"
    then show "is_slot (overflowLength s') x"
      using Inv_free_slot [OF inv, of x] by (simp add: fl ol)
    show "\<not> owned s' x"
      using Inv_free_unowned [OF inv, of x] x idx_notin by (auto simp: fl own)
  next
    fix x :: nat assume "is_slot (overflowLength s') x" "x \<notin> set fl0"
    then show "owned s' x"
      using Inv_cover [OF inv, of x] by (auto simp: ol own fl)
  qed
  then show ?thesis by (simp add: fl)
qed

lemma Inv_free:
  assumes inv: "Inv s cnt fl" and g: "g < arrayLength s"
    and al: "arrayLength s' = arrayLength s" and ol: "overflowLength s' = overflowLength s"
    and oth: "\<And>h. h \<noteq> g \<Longrightarrow> counts s' h = counts s h \<and> data s' h = data s h"
    and pr: "promoted (counts s g)" and np': "\<not> promoted (counts s' g)"
    and nf: "nextFreeOverflow s' = slot_index (counts s g)"
    and hd: "overflow s' (slot_index (counts s g)) = of_nat (nextFreeOverflow s)"
    and ovf: "\<And>a. a < slot_index (counts s g) \<or> slot_index (counts s g) + 4 \<le> a \<Longrightarrow>
                overflow s' a = overflow s a"
    and gok: "group_ok s' f' g" and le: "\<And>i. i < 64 \<Longrightarrow> f' i \<le> 15"
  shows "Inv s' (cnt(g := f')) (slot_index (counts s g) # fl)"
proof -
  define idx where "idx = slot_index (counts s g)"
  have idx_slot: "is_slot (overflowLength s) idx"
    unfolding idx_def using inv g pr by (rule owned_slot)
  have idx_owned: "owned s idx"
    using g pr by (auto simp: owned_def idx_def)
  have idx_notin: "idx \<notin> set fl"
    using Inv_free_unowned [OF inv, of idx] idx_owned by blast
  have pr_oth: "promoted (counts s' h) = promoted (counts s h)" if "h \<noteq> g" for h
    using oth [OF that] by simp
  have si_oth: "slot_index (counts s' h) = slot_index (counts s h)" if "h \<noteq> g" for h
    using oth [OF that] by simp
  have own: "owned s' x = (owned s x \<and> x \<noteq> idx)" for x
  proof
    assume "owned s' x"
    then obtain h where h: "h < arrayLength s" "promoted (counts s' h)" "slot_index (counts s' h) = x"
      by (auto simp: owned_def al)
    with np' have hg: "h \<noteq> g" by auto
    have "promoted (counts s h)" "slot_index (counts s h) = x"
      using h pr_oth [OF hg] si_oth [OF hg] by simp_all
    moreover from this have "x \<noteq> idx"
      using Inv_slots [OF inv h(1) g _ pr] hg by (auto simp: idx_def)
    ultimately show "owned s x \<and> x \<noteq> idx"
      using h(1) by (auto simp: owned_def)
  next
    assume a: "owned s x \<and> x \<noteq> idx"
    then obtain h where h: "h < arrayLength s" "promoted (counts s h)" "slot_index (counts s h) = x"
      by (auto simp: owned_def)
    with a have "h \<noteq> g" by (auto simp: idx_def)
    with h pr_oth [OF this] si_oth [OF this] show "owned s' x"
      by (auto simp: owned_def al)
  qed
  have away: "overflow s' a = overflow s a"
    if "4 dvd x" "x \<le> a" "a < x + 4" "x \<noteq> idx" for x a
  proof -
    have "4 dvd idx" using idx_slot by (rule is_slot_dvd)
    then have "a < idx \<or> idx + 4 \<le> a"
      using that(1) _ that(2,3) by (rule slot_disjoint) (use that(4) in simp)
    then show ?thesis
      using ovf [of a] by (simp add: idx_def)
  qed
  have "Inv s' (cnt(g := f')) (idx # fl)"
  proof (rule InvI)
    show "overflowLength s' \<le> 2 ^ 28"
      using Inv_small [OF inv] by (simp add: ol)
    have "idx < 2 ^ 28" unfolding idx_def by (rule slot_index_less)
    then show "nextFreeOverflow s' < 2 ^ 64"
      by (simp add: nf idx_def)
  next
    fix h i :: nat assume "h < arrayLength s'" "i < 64"
    then show "(cnt(g := f')) h i \<le> 15"
      using le Inv_le [OF inv, of h i] by (simp add: al)
  next
    fix h :: nat assume h: "h < arrayLength s'"
    show "group_ok s' ((cnt(g := f')) h) h"
    proof (cases "h = g")
      case True
      with gok show ?thesis by simp
    next
      case False
      have hs: "h < arrayLength s" using h by (simp add: al)
      have "group_ok s' (cnt h) h"
      proof (rule group_ok_frame [OF Inv_group [OF inv hs]])
        show "counts s' h = counts s h" "data s' h = data s h"
          using oth [OF False] by simp_all
        show "overflowLength s' = overflowLength s" by (rule ol)
      next
        fix a :: nat assume a: "promoted (counts s h)" "slot_index (counts s h) \<le> a"
          "a < slot_index (counts s h) + 4"
        show "overflow s' a = overflow s a"
        proof (rule away [OF _ a(2,3)])
          show "4 dvd slot_index (counts s h)"
            using owned_slot [OF inv hs a(1)] by (simp add: is_slot_dvd)
          show "slot_index (counts s h) \<noteq> idx"
            using Inv_slots [OF inv hs g a(1) pr] False by (auto simp: idx_def)
        qed
      qed
      with False show ?thesis by simp
    qed
  next
    fix h k :: nat assume hk: "h < arrayLength s'" "k < arrayLength s'" "promoted (counts s' h)"
      "promoted (counts s' k)" "slot_index (counts s' h) = slot_index (counts s' k)"
    from hk np' have "h \<noteq> g" "k \<noteq> g" by auto
    with hk Inv_slots [OF inv, of h k] show "h = k"
      by (simp add: al pr_oth si_oth)
  next
    have "chain (overflow s') (overflowLength s) (nextFreeOverflow s) fl
            = chain (overflow s) (overflowLength s) (nextFreeOverflow s) fl"
    proof (rule chain_cong)
      fix x :: nat assume x: "x \<in> set fl"
      show "overflow s' x = overflow s x"
      proof (rule away)
        show "4 dvd x" using Inv_free_slot [OF inv x] by (rule is_slot_dvd)
        show "x \<le> x" "x < x + 4" by simp_all
        show "x \<noteq> idx" using x idx_notin by auto
      qed
    qed
    moreover have "unat (of_nat (nextFreeOverflow s) :: u64) = nextFreeOverflow s"
      using Inv_next [OF inv] by (simp add: unat_of_nat)
    moreover have "idx < overflowLength s"
      using idx_slot by (rule is_slot_less)
    ultimately show "chain (overflow s') (overflowLength s') (nextFreeOverflow s') (idx # fl)"
      using Inv_chain [OF inv] hd by (simp add: ol nf idx_def)
    show "distinct (idx # fl)"
      using Inv_distinct [OF inv] idx_notin by simp
  next
    fix x :: nat assume x: "x \<in> set (idx # fl)"
    then show "is_slot (overflowLength s') x"
      using Inv_free_slot [OF inv, of x] idx_slot by (auto simp: ol)
    show "\<not> owned s' x"
      using Inv_free_unowned [OF inv, of x] x by (auto simp: own)
  next
    fix x :: nat assume "is_slot (overflowLength s') x" "x \<notin> set (idx # fl)"
    then show "owned s' x"
      using Inv_cover [OF inv, of x] by (auto simp: ol own)
  qed
  then show ?thesis by (simp only: idx_def)
qed

section \<open>\<^verbatim>\<open>Increment\<close> and \<^verbatim>\<open>Decrement\<close> preserve the invariant\<close>

lemma Increment_overflowLength [simp]: "overflowLength (Increment s g b) = overflowLength s"
  by (simp add: Increment_def Let_def)

lemma Increment_counts_other: "h \<noteq> g \<Longrightarrow> counts (Increment s g b) h = counts s h"
  by (simp add: Increment_def Let_def)

lemma Increment_data_other: "h \<noteq> g \<Longrightarrow> data (Increment s g b) h = data s h"
  by (simp add: Increment_data)

lemma Decrement_arrayLength [simp]: "arrayLength (Decrement s g b) = arrayLength s"
  by (simp add: Decrement_def Let_def)

lemma Decrement_overflowLength [simp]: "overflowLength (Decrement s g b) = overflowLength s"
  by (simp add: Decrement_def Let_def)

lemma Decrement_counts_other: "h \<noteq> g \<Longrightarrow> counts (Decrement s g b) h = counts s h"
  by (simp add: Decrement_def Let_def)

lemma Decrement_data_other: "h \<noteq> g \<Longrightarrow> data (Decrement s g b) h = data s h"
  by (simp add: Decrement_def Let_def)

lemma not_promoted_iff: "(\<not> promoted c) = (c AND 0x8000000000000000 = 0)"
  by (simp add: promoted_def)

lemma inline_rep_unpromoted: "inline_rep m c f \<Longrightarrow> \<not> promoted c"
  by (simp add: not_promoted_iff inline_rep_not_promoted)

lemma Inv_Increment:
  assumes inv: "Inv s cnt fl" and g: "g < arrayLength s" and b: "b < 64"
    and room: "cnt g b < 15" and ne: "\<not> exhausted s g"
  shows "\<exists>fl'. Inv (Increment s g b) (count_op cnt (Inc g b)) fl'"
proof -
  define s' where "s' = Increment s g b"
  define f' where "f' = (cnt g)(b := cnt g b + 1)"
  have le: "f' i \<le> 15" if "i < 64" for i
    using Inv_le [OF inv g that] room by (simp add: f'_def)
  have oth: "counts s' h = counts s h \<and> data s' h = data s h" if "h \<noteq> g" for h
    using that by (simp add: s'_def Increment_counts_other Increment_data_other)
  have al: "arrayLength s' = arrayLength s" and ol: "overflowLength s' = overflowLength s"
    by (simp_all add: s'_def)
  note ok = Inv_group [OF inv g]
  have "\<exists>fl'. Inv s' (cnt(g := f')) fl'"
  proof (cases "promoted (counts s g)")
    case True
    with ok have rep: "prom_rep (data s g) (counts s g) (overflow s) (cnt g)"
      and slot: "is_slot (overflowLength s) (slot_index (counts s g))"
      by (simp_all add: group_ok_def)
    note inc = Increment_promoted [OF rep b room, folded s'_def f'_def]
    have pr': "promoted (counts s' g)"
      using inc(1) by (rule prom_rep_promoted)
    have "Inv s' (cnt(g := f')) fl"
    proof (rule Inv_keep [OF inv g al ol _ oth _ _ _ _ le])
      show "nextFreeOverflow s' = nextFreeOverflow s"
        by (simp add: s'_def Increment_promoted_unfold [OF True])
      show "promoted (counts s' g) = promoted (counts s g)"
        using pr' True by simp
      show "slot_index (counts s' g) = slot_index (counts s g)"
        by (rule inc(2))
      show "group_ok s' f' g"
        using inc pr' slot by (simp add: group_ok_def ol)
    next
      fix a :: nat
      assume "\<not> promoted (counts s g) \<or> a < slot_index (counts s g)
                \<or> slot_index (counts s g) + 4 \<le> a"
      moreover have "b div 16 < 4" using b by simp
      ultimately have "a \<noteq> slot_index (counts s g) + b div 16"
        using True by auto
      then show "overflow s' a = overflow s a"
        by (simp add: s'_def Increment_promoted_unfold [OF True])
    qed
    then show ?thesis by blast
  next
    case False
    with ok have rep: "inline_rep (data s g) (counts s g) (cnt g)"
      by (simp add: group_ok_def)
    show ?thesis
    proof (cases "counts s g AND 0xc000000000000000 = 0")
      case fits: True
      have rep': "inline_rep (data s' g) (counts s' g) f'"
        unfolding s'_def f'_def using rep b fits by (rule Increment_inline)
      have np': "\<not> promoted (counts s' g)"
        using rep' by (rule inline_rep_unpromoted)
      have "Inv s' (cnt(g := f')) fl"
      proof (rule Inv_keep [OF inv g al ol _ oth _ _ _ _ le])
        show "nextFreeOverflow s' = nextFreeOverflow s"
          by (simp add: s'_def Increment_inline_unfold [OF fits])
        show "promoted (counts s' g) = promoted (counts s g)"
          using np' False by simp
        show "slot_index (counts s' g) = slot_index (counts s g)" if "promoted (counts s g)"
          using that False by simp
        show "group_ok s' f' g"
          using rep' np' by (simp add: group_ok_def)
      next
        fix a :: nat
        show "overflow s' a = overflow s a"
          by (simp add: s'_def Increment_inline_unfold [OF fits])
      qed
      then show ?thesis by blast
    next
      case full: False
      have np: "counts s g AND 0x8000000000000000 = 0"
        using False by (simp add: not_promoted_iff)
      have avail: "nextFreeOverflow s < overflowLength s"
        using ne full np by (simp add: exhausted_def)
      have le0: "cnt g i \<le> 15" if "i < 64" for i
        using Inv_le [OF inv g that] .
      note pro = Increment_promote [OF rep b full avail Inv_small [OF inv] le0 room,
          folded s'_def f'_def]
      note fields = Increment_promote_fields [OF full np avail, of b, folded s'_def]
      have pr': "promoted (counts s' g)"
        using pro(1) by (rule prom_rep_promoted)
      have "nextFreeOverflow s \<in> set fl"
        using Inv_chain [OF inv] avail by (cases fl) simp_all
      then have slot: "is_slot (overflowLength s) (nextFreeOverflow s)"
        by (rule Inv_free_slot [OF inv])
      have "Inv s' (cnt(g := f')) (tl fl)"
      proof (rule Inv_alloc [OF inv g al ol oth False pr' pro(2) avail fields(2) _ _ le])
        show "group_ok s' f' g"
          using pro(1,2) pr' slot by (simp add: group_ok_def ol)
      next
        fix a :: nat
        assume "a < nextFreeOverflow s \<or> nextFreeOverflow s + 4 \<le> a"
        then show "overflow s' a = overflow s a"
          using Increment_promote(3) [OF rep b full avail Inv_small [OF inv] le0 room, of a]
          by (simp add: s'_def)
      qed
      then show ?thesis by blast
    qed
  qed
  then show ?thesis
    by (simp add: s'_def f'_def)
qed

lemma Inv_Decrement:
  assumes inv: "Inv s cnt fl" and g: "g < arrayLength s" and b: "b < 64"
    and pos: "0 < cnt g b"
  shows "\<exists>fl'. Inv (Decrement s g b) (count_op cnt (Dec g b)) fl'"
proof -
  define s' where "s' = Decrement s g b"
  define f' where "f' = (cnt g)(b := cnt g b - 1)"
  have le: "f' i \<le> 15" if "i < 64" for i
    using Inv_le [OF inv g that] Inv_le [OF inv g b] by (auto simp: f'_def)
  have oth: "counts s' h = counts s h \<and> data s' h = data s h" if "h \<noteq> g" for h
    using that by (simp add: s'_def Decrement_counts_other Decrement_data_other)
  have al: "arrayLength s' = arrayLength s" and ol: "overflowLength s' = overflowLength s"
    by (simp_all add: s'_def)
  note ok = Inv_group [OF inv g]
  have "\<exists>fl'. Inv s' (cnt(g := f')) fl'"
  proof (cases "promoted (counts s g)")
    case False
    with ok have rep: "inline_rep (data s g) (counts s g) (cnt g)"
      by (simp add: group_ok_def)
    have np: "counts s g AND 0x8000000000000000 = 0"
      using False by (simp add: not_promoted_iff)
    have rep': "inline_rep (data s' g) (counts s' g) f'"
      unfolding s'_def f'_def using rep b pos by (rule Decrement_inline)
    have np': "\<not> promoted (counts s' g)"
      using rep' by (rule inline_rep_unpromoted)
    have "Inv s' (cnt(g := f')) fl"
    proof (rule Inv_keep [OF inv g al ol _ oth _ _ _ _ le])
      show "nextFreeOverflow s' = nextFreeOverflow s"
        by (simp add: s'_def Decrement_inline_unfold [OF np] Let_def)
      show "promoted (counts s' g) = promoted (counts s g)"
        using np' False by simp
      show "slot_index (counts s' g) = slot_index (counts s g)" if "promoted (counts s g)"
        using that False by simp
      show "group_ok s' f' g"
        using rep' np' by (simp add: group_ok_def)
    next
      fix a :: nat
      show "overflow s' a = overflow s a"
        by (simp add: s'_def Decrement_inline_unfold [OF np] Let_def)
    qed
    then show ?thesis by blast
  next
    case True
    with ok have rep: "prom_rep (data s g) (counts s g) (overflow s) (cnt g)"
      and slot: "is_slot (overflowLength s) (slot_index (counts s g))"
      by (simp_all add: group_ok_def)
    define idx where "idx = slot_index (counts s g)"
    define T where "T = psum (cnt g) 64"
    note fields = Decrement_promoted_fields [OF True b, folded s'_def, folded idx_def]
    note dec = Decrement_promoted [OF rep b pos, folded s'_def f'_def, folded T_def]
    have "counts s g = header T idx"
      using prom_rep_header [OF rep] by (simp add: T_def idx_def)
    moreover have "T < 2 ^ 28"
      using prom_rep_total_le [OF rep] by (simp add: T_def)
    moreover have "idx < 2 ^ 28"
      unfolding idx_def by (rule slot_index_less)
    ultimately have tc: "total_count (counts s g) = T"
      by (simp add: total_count_header)
    have b4: "b div 16 < 4" using b by simp
    show ?thesis
    proof (cases "64 \<le> T")
      case big: True
      with dec have rep': "prom_rep (data s' g) (counts s' g) (overflow s') f'"
        and si: "slot_index (counts s' g) = slot_index (counts s g)"
        by simp_all
      have pr': "promoted (counts s' g)"
        using rep' by (rule prom_rep_promoted)
      have "Inv s' (cnt(g := f')) fl"
      proof (rule Inv_keep [OF inv g al ol _ oth _ _ _ _ le])
        show "nextFreeOverflow s' = nextFreeOverflow s"
          using big by (simp add: fields(4) tc)
        show "promoted (counts s' g) = promoted (counts s g)"
          using pr' True by simp
        show "slot_index (counts s' g) = slot_index (counts s g)"
          by (rule si)
        show "group_ok s' f' g"
          using rep' pr' slot si by (simp add: group_ok_def ol)
      next
        fix a :: nat
        assume "\<not> promoted (counts s g) \<or> a < slot_index (counts s g)
                  \<or> slot_index (counts s g) + 4 \<le> a"
        with True b4 have "a \<noteq> idx + b div 16"
          by (auto simp: idx_def)
        with big show "overflow s' a = overflow s a"
          by (simp add: fields(3) tc)
      qed
      then show ?thesis by blast
    next
      case small: False
      with dec have rep': "inline_rep (data s' g) (counts s' g) f'"
        by simp
      have np': "\<not> promoted (counts s' g)"
        using rep' by (rule inline_rep_unpromoted)
      have "Inv s' (cnt(g := f')) (slot_index (counts s g) # fl)"
      proof (rule Inv_free [OF inv g al ol oth True np' _ _ _ _ le])
        show "nextFreeOverflow s' = slot_index (counts s g)"
          using small by (simp add: fields(4) tc idx_def)
        show "overflow s' (slot_index (counts s g)) = of_nat (nextFreeOverflow s)"
          using small by (simp add: fields(3) tc idx_def)
        show "group_ok s' f' g"
          using rep' np' by (simp add: group_ok_def)
      next
        fix a :: nat
        assume "a < slot_index (counts s g) \<or> slot_index (counts s g) + 4 \<le> a"
        with b4 have "a \<noteq> idx + b div 16" "a \<noteq> idx"
          by (auto simp: idx_def)
        with small show "overflow s' a = overflow s a"
          by (simp add: fields(3) tc)
      qed
      then show ?thesis by blast
    qed
  qed
  then show ?thesis
    by (simp add: s'_def f'_def)
qed

section \<open>The freshly constructed filter and runs of operations\<close>

lemma init_overflow_eq:
  "init_overflow r i ov x =
     (if i \<le> x \<and> x < i + 4 * r \<and> 4 dvd (x - i) then of_nat (x + 4) else ov x)"
proof (induction r arbitrary: i ov)
  case 0
  show ?case by auto
next
  case (Suc r)
  have "init_overflow (Suc r) i ov x = init_overflow r (i + 4) (ov(i := of_nat (i + 4))) x"
    by simp
  also have "\<dots> = (if i + 4 \<le> x \<and> x < i + 4 + 4 * r \<and> 4 dvd (x - (i + 4))
                     then of_nat (x + 4) else (ov(i := of_nat (i + 4))) x)"
    by (rule Suc.IH)
  also have "\<dots> = (if i \<le> x \<and> x < i + 4 * Suc r \<and> 4 dvd (x - i) then of_nat (x + 4) else ov x)"
  proof (cases "x = i")
    case True
    then show ?thesis by simp
  next
    case False
    have "(i + 4 \<le> x \<and> 4 dvd (x - (i + 4))) = (i \<le> x \<and> 4 dvd (x - i))"
    proof
      assume a: "i + 4 \<le> x \<and> 4 dvd (x - (i + 4))"
      then obtain k where "x - (i + 4) = 4 * k" by (auto simp: dvd_def)
      with a have "x - i = 4 * Suc k" by simp
      then have "4 dvd (x - i)" by (simp only: dvd_triv_left)
      with a show "i \<le> x \<and> 4 dvd (x - i)" by simp
    next
      assume a: "i \<le> x \<and> 4 dvd (x - i)"
      then obtain k where k: "x - i = 4 * k" by (auto simp: dvd_def)
      with a False have "k \<noteq> 0" by auto
      then obtain k' where "k = Suc k'" by (cases k) simp_all
      with k a have "x = i + 4 + 4 * k'" by simp
      then show "i + 4 \<le> x \<and> 4 dvd (x - (i + 4))" by simp
    qed
    with False show ?thesis by auto
  qed
  finally show ?case .
qed

lemma chain_init:
  assumes ov: "\<And>j. j < n \<Longrightarrow> ov (4 * j) = of_nat (4 * j + 4)" and n: "4 * n < 2 ^ 64"
  shows "k \<le> n \<Longrightarrow> chain ov (4 * n) (4 * k) (map ((*) 4) [k..<n])"
proof (induction "n - k" arbitrary: k)
  case 0
  then show ?case by simp
next
  case (Suc d)
  then have k: "k < n" by simp
  have "unat (of_nat y :: u64) = y mod 2 ^ 64" for y
    by (simp add: unat_of_nat)
  from this [of "4 * k + 4"] have "unat (of_nat (4 * k + 4) :: u64) = 4 * Suc k"
    using k n by simp
  moreover have "chain ov (4 * n) (4 * Suc k) (map ((*) 4) [Suc k..<n])"
    using Suc.hyps(2) k by (intro Suc.hyps(1)) simp_all
  ultimately show ?case
    using k by (simp add: upt_conv_Cons ov)
qed

lemma inline_rep_empty: "inline_rep 0 0 (\<lambda>_. 0)"
  by (simp add: inline_rep_def psum_def)

lemma promoted_0 [simp]: "\<not> promoted 0"
  by (simp add: promoted_def)

lemma scbf_new_fields:
  "data (scbf_new bpi n) = (\<lambda>_. 0)" "counts (scbf_new bpi n) = (\<lambda>_. 0)"
  "nextFreeOverflow (scbf_new bpi n) = 0"
  "overflowLength (scbf_new bpi n) = 100 + arrayLength (scbf_new bpi n) div 100 * 12"
  "overflow (scbf_new bpi n) =
     init_overflow ((overflowLength (scbf_new bpi n) + 3) div 4) 0 (\<lambda>_. 0)"
  by (simp_all add: scbf_new_def Let_def)

lemma Inv_new:
  assumes small: "overflowLength (scbf_new bpi n) \<le> 2 ^ 28"
  shows "Inv (scbf_new bpi n) (\<lambda>_ _. 0)
           (map ((*) 4) [0..<overflowLength (scbf_new bpi n) div 4])"
proof -
  define s where "s = scbf_new bpi n"
  define len where "len = overflowLength s"
  define m where "m = len div 4"
  have "len = 100 + arrayLength s div 100 * 12"
    by (simp add: len_def s_def scbf_new_fields(4))
  then have "4 dvd len" by simp
  then have len: "len = 4 * m" by (simp add: m_def)
  have r: "(len + 3) div 4 = m" by (simp add: len)
  have ov: "overflow s (4 * j) = of_nat (4 * j + 4)" if "j < m" for j
    using that by (simp add: s_def scbf_new_fields(5) init_overflow_eq r [unfolded len_def s_def])
  have own: "\<not> owned s x" for x
    by (simp add: owned_def s_def scbf_new_fields)
  have "Inv s (\<lambda>_ _. 0) (map ((*) 4) [0..<m])"
  proof (rule InvI)
    show "overflowLength s \<le> 2 ^ 28"
      using small by (simp add: s_def)
    show "nextFreeOverflow s < 2 ^ 64"
      by (simp add: s_def scbf_new_fields)
  next
    fix g i :: nat
    show "(0::nat) \<le> 15" by simp
  next
    fix g :: nat
    show "group_ok s (\<lambda>_. 0) g"
      by (simp add: group_ok_def s_def scbf_new_fields inline_rep_empty)
  next
    fix g h :: nat assume "promoted (counts s g)"
    then show "g = h" by (simp add: s_def scbf_new_fields)
  next
    have "4 * m < (2::nat) ^ 64"
      using small by (simp add: len [symmetric] len_def s_def)
    with ov have "chain (overflow s) (4 * m) (4 * 0) (map ((*) 4) [0..<m])"
      by (intro chain_init) simp_all
    then show "chain (overflow s) (overflowLength s) (nextFreeOverflow s) (map ((*) 4) [0..<m])"
      by (simp add: len [symmetric] len_def) (simp add: s_def scbf_new_fields(3))
    show "distinct (map ((*) 4) [0..<m])"
      by (simp add: distinct_map inj_on_def)
  next
    fix x :: nat assume "x \<in> set (map ((*) 4) [0..<m])"
    then show "is_slot (overflowLength s) x"
      by (auto simp: is_slot_def len [unfolded len_def])
    show "\<not> owned s x" by (rule own)
  next
    fix x :: nat assume x: "is_slot (overflowLength s) x" "x \<notin> set (map ((*) 4) [0..<m])"
    from x(1) obtain k where k: "x = 4 * k" "x + 4 \<le> 4 * m"
      by (auto simp: is_slot_def dvd_def len [unfolded len_def])
    then have "k < m" by simp
    with k(1) x(2) show "owned s x" by auto
  qed
  then show ?thesis
    by (simp only: s_def m_def len_def)
qed

lemma run_Nil [simp]: "run s [] = s"
  by (simp add: run_def)

lemma run_Cons [simp]: "run s (x # ops) = run (apply_op s x) ops"
  by (simp add: run_def)

lemma run_append: "run s (xs @ ys) = run (run s xs) ys"
  by (simp add: run_def)

lemma apply_op_arrayLength [simp]: "arrayLength (apply_op s x) = arrayLength s"
  by (cases x) simp_all

lemma apply_op_overflowLength [simp]: "overflowLength (apply_op s x) = overflowLength s"
  by (cases x) simp_all

lemma run_arrayLength [simp]: "arrayLength (run s ops) = arrayLength s"
  by (induction ops arbitrary: s) simp_all

lemma run_overflowLength [simp]: "overflowLength (run s ops) = overflowLength s"
  by (induction ops arbitrary: s) simp_all

lemma count_op_Inc_apply:
  "count_op cnt (Inc g b) g' b' = (if g' = g \<and> b' = b then cnt g b + 1 else cnt g' b')"
  by simp

lemma count_op_Dec_apply:
  "count_op cnt (Dec g b) g' b' = (if g' = g \<and> b' = b then cnt g b - 1 else cnt g' b')"
  by simp

lemma Inv_run:
  "Inv s cnt fl \<Longrightarrow> admissible s cnt ops \<Longrightarrow> \<exists>fl'. Inv (run s ops) (foldl count_op cnt ops) fl'"
proof (induction ops arbitrary: s cnt fl)
  case Nil
  then show ?case by auto
next
  case (Cons x ops)
  show ?case
  proof (cases x)
    case (Inc g b)
    with Cons.prems(2) have a: "g < arrayLength s" "b < 64" "cnt g b < 15" "\<not> exhausted s g"
      and rest: "admissible (Increment s g b) (count_op cnt (Inc g b)) ops"
      by (simp_all del: count_op.simps)
    from Inv_Increment [OF Cons.prems(1) a] obtain fl1
      where "Inv (Increment s g b) (count_op cnt (Inc g b)) fl1" by blast
    from Cons.IH [OF this rest] Inc show ?thesis by (simp del: count_op.simps)
  next
    case (Dec g b)
    with Cons.prems(2) have a: "g < arrayLength s" "b < 64" "0 < cnt g b"
      and rest: "admissible (Decrement s g b) (count_op cnt (Dec g b)) ops"
      by (simp_all del: count_op.simps)
    from Inv_Decrement [OF Cons.prems(1) a] obtain fl1
      where "Inv (Decrement s g b) (count_op cnt (Dec g b)) fl1" by blast
    from Cons.IH [OF this rest] Dec show ?thesis by (simp del: count_op.simps)
  qed
qed

lemma Inv_ReadCount:
  assumes inv: "Inv s cnt fl" and g: "g < arrayLength s" and b: "b < 64"
  shows "ReadCount s g b = int (cnt g b)"
proof (cases "promoted (counts s g)")
  case True
  with Inv_group [OF inv g] have "prom_rep (data s g) (counts s g) (overflow s) (cnt g)"
    by (simp add: group_ok_def)
  then show ?thesis using b by (rule ReadCount_promoted)
next
  case False
  with Inv_group [OF inv g] have "inline_rep (data s g) (counts s g) (cnt g)"
    by (simp add: group_ok_def)
  then show ?thesis using b by (rule ReadCount_inline)
qed

lemma Inv_presence:
  assumes inv: "Inv s cnt fl" and g: "g < arrayLength s" and b: "b < 64"
  shows "bit (data s g) b = (0 < cnt g b)"
  using Inv_group [OF inv g] b
  by (auto simp: group_ok_def prom_rep_presence inline_rep_presence split: if_splits)

lemma admissible_count:
  "admissible s cnt ops \<Longrightarrow>
     foldl count_op cnt ops g i + count_list ops (Dec g i) = cnt g i + count_list ops (Inc g i)"
proof (induction ops arbitrary: s cnt)
  case Nil
  show ?case by simp
next
  case (Cons x ops)
  show ?case
  proof (cases x)
    case (Inc g' b')
    with Cons.prems have "admissible (Increment s g' b') (count_op cnt (Inc g' b')) ops"
      by (simp del: count_op.simps)
    then have "foldl count_op (count_op cnt (Inc g' b')) ops g i + count_list ops (Dec g i)
                 = count_op cnt (Inc g' b') g i + count_list ops (Inc g i)"
      by (rule Cons.IH)
    with Inc show ?thesis
      by (auto simp add: count_op_Inc_apply simp del: count_op.simps)
  next
    case (Dec g' b')
    with Cons.prems have "admissible (Decrement s g' b') (count_op cnt (Dec g' b')) ops"
      and "0 < cnt g' b'"
      by (simp_all del: count_op.simps)
    from Cons.IH [OF this(1)] have "foldl count_op (count_op cnt (Dec g' b')) ops g i + count_list ops (Dec g i)
                 = count_op cnt (Dec g' b') g i + count_list ops (Inc g i)" .
    with \<open>0 < cnt g' b'\<close> Dec show ?thesis
      by (auto simp add: count_op_Dec_apply simp del: count_op.simps)
  qed
qed

lemma admissible_take: "admissible s cnt ops \<Longrightarrow> admissible s cnt (take k ops)"
proof (induction ops arbitrary: s cnt k)
  case Nil
  show ?case by simp
next
  case (Cons x ops)
  show ?case
  proof (cases k)
    case 0
    then show ?thesis by simp
  next
    case (Suc k')
    with Cons show ?thesis by (cases x) (simp_all del: count_op.simps)
  qed
qed

lemma counts_of_eq:
  assumes "admissible s (\<lambda>_ _. 0) ops"
  shows "int (counts_of ops g i) = int (count_list ops (Inc g i)) - int (count_list ops (Dec g i))"
  using admissible_count [OF assms, of g i] by (simp add: counts_of_def)

section \<open>Filling a group: promotion\<close>

lemma inline_fits:
  assumes rep: "inline_rep m c f" and room: "psum f 64 \<le> 62"
  shows "c AND 0xc000000000000000 = 0"
proof -
  have "\<not> bit c 62"
  proof
    assume "bit c 62"
    then obtain i where i: "i < 64" "psum f (Suc i) = 63"
      by (auto simp: inline_rep_bit [OF rep])
    have "psum f (Suc i) \<le> psum f 64"
      using i(1) by (intro psum_mono) simp
    with i(2) room show False by simp
  qed
  with inline_rep_top_clear [OF rep] show ?thesis
    by (simp add: top_two_bits_iff)
qed

lemma inline_full:
  assumes rep: "inline_rep m c f" and full: "psum f 64 = 63"
  shows "c AND 0xc000000000000000 \<noteq> 0"
proof -
  have "0 < psum f 64" using full by simp
  then obtain i where "i < 64" "0 < f i" "psum f (Suc i) = psum f 64"
    using psum_last_present by blast
  then have "i < 64 \<and> 0 < f i \<and> psum f (Suc i) = Suc 62"
    using full by simp
  then have "bit c 62"
    unfolding inline_rep_bit [OF rep] by blast
  then show ?thesis
    by (simp add: top_two_bits_iff)
qed

lemma Inv_small_total_inline:
  assumes inv: "Inv s cnt fl" and g: "g < arrayLength s" and room: "psum (cnt g) 64 \<le> 62"
  shows "inline_rep (data s g) (counts s g) (cnt g)" and "\<not> promoted (counts s g)"
    and "counts s g AND 0xc000000000000000 = 0" and "\<not> exhausted s g"
proof -
  have np: "\<not> promoted (counts s g)"
  proof
    assume "promoted (counts s g)"
    with Inv_group [OF inv g] have "63 \<le> psum (cnt g) 64"
      by (simp add: group_ok_def prom_rep_def)
    with room show False by simp
  qed
  then show "\<not> promoted (counts s g)" .
  from np Inv_group [OF inv g] show rep: "inline_rep (data s g) (counts s g) (cnt g)"
    by (simp add: group_ok_def)
  from rep room show fits: "counts s g AND 0xc000000000000000 = 0"
    by (rule inline_fits)
  then show "\<not> exhausted s g"
    by (simp add: exhausted_def)
qed

lemma psum_count_op_Inc:
  "b < 64 \<Longrightarrow> psum (count_op cnt (Inc g b) g) 64 = Suc (psum (cnt g) 64)"
  using psum_inc [of "cnt g" b 64] by simp

lemma inc_distinct:
  "Inv s cnt fl \<Longrightarrow> g < arrayLength s \<Longrightarrow> \<not> promoted (counts s g) \<Longrightarrow> distinct bs \<Longrightarrow>
   (\<forall>b\<in>set bs. b < 64 \<and> cnt g b = 0) \<Longrightarrow> psum (cnt g) 64 + length bs \<le> 63 \<Longrightarrow>
     admissible s cnt (map (Inc g) bs)
     \<and> nextFreeOverflow (run s (map (Inc g) bs)) = nextFreeOverflow s
     \<and> \<not> promoted (counts (run s (map (Inc g) bs)) g)
     \<and> psum (foldl count_op cnt (map (Inc g) bs) g) 64 = psum (cnt g) 64 + length bs"
proof (induction bs arbitrary: s cnt fl)
  case Nil
  then show ?case by simp
next
  case (Cons b bs)
  define s' where "s' = Increment s g b"
  define cnt' where "cnt' = count_op cnt (Inc g b)"
  have b: "b < 64" and zero: "cnt g b = 0" and room: "psum (cnt g) 64 \<le> 62"
    using Cons.prems(5,6) by simp_all
  note small = Inv_small_total_inline [OF Cons.prems(1,2) room]
  have room15: "cnt g b < 15" using zero by simp
  obtain fl' where inv': "Inv s' cnt' fl'"
    using Inv_Increment [OF Cons.prems(1,2) b room15 small(4)] by (auto simp: s'_def cnt'_def)
  have g': "g < arrayLength s'"
    using Cons.prems(2) by (simp add: s'_def)
  have rep': "inline_rep (data s' g) (counts s' g) ((cnt g)(b := cnt g b + 1))"
    unfolding s'_def using small(1) b small(3) by (rule Increment_inline)
  have np': "\<not> promoted (counts s' g)"
    using rep' by (rule inline_rep_unpromoted)
  have nf': "nextFreeOverflow s' = nextFreeOverflow s"
    by (simp add: s'_def Increment_inline_unfold [OF small(3)])
  have ps': "psum (cnt' g) 64 = Suc (psum (cnt g) 64)"
    unfolding cnt'_def using b by (rule psum_count_op_Inc)
  have zeros': "\<forall>b'\<in>set bs. b' < 64 \<and> cnt' g b' = 0"
    using Cons.prems(4,5) by (auto simp: cnt'_def)
  have "admissible s' cnt' (map (Inc g) bs)
     \<and> nextFreeOverflow (run s' (map (Inc g) bs)) = nextFreeOverflow s'
     \<and> \<not> promoted (counts (run s' (map (Inc g) bs)) g)
     \<and> psum (foldl count_op cnt' (map (Inc g) bs) g) 64 = psum (cnt' g) 64 + length bs"
    using inv' g' np' _ zeros'
  proof (rule Cons.IH)
    show "distinct bs" using Cons.prems(4) by simp
    show "psum (cnt' g) 64 + length bs \<le> 63"
      using Cons.prems(6) by (simp add: ps')
  qed
  then show ?case
    using Cons.prems(2) b room15 small(4)
    by (simp add: s'_def [symmetric] cnt'_def [symmetric] nf' ps' del: count_op.simps)
qed

lemma admissible_append:
  "admissible s cnt (xs @ ys)
     = (admissible s cnt xs \<and> admissible (run s xs) (foldl count_op cnt xs) ys)"
proof (induction xs arbitrary: s cnt)
  case Nil
  show ?case by simp
next
  case (Cons x xs)
  show ?case by (cases x) (simp_all add: Cons.IH del: count_op.simps)
qed

lemma psum_zero: "(\<And>i. i < n \<Longrightarrow> f i = 0) \<Longrightarrow> psum f n = 0"
  by (simp add: psum_def)

lemma Inv_promote:
  assumes inv: "Inv s cnt fl" and g: "g < arrayLength s" and b: "b < 64"
    and np: "\<not> promoted (counts s g)" and full: "psum (cnt g) 64 = 63"
    and avail: "nextFreeOverflow s < overflowLength s" and room: "cnt g b < 15"
  shows "promoted (counts (Increment s g b) g)"
    and "slot_index (counts (Increment s g b) g) = nextFreeOverflow s"
    and "total_count (counts (Increment s g b) g) = 64"
    and "\<not> exhausted s g"
proof -
  from np Inv_group [OF inv g] have rep: "inline_rep (data s g) (counts s g) (cnt g)"
    by (simp add: group_ok_def)
  have c_full: "counts s g AND 0xc000000000000000 \<noteq> 0"
    using rep full by (rule inline_full)
  have np': "counts s g AND 0x8000000000000000 = 0"
    using np by (simp add: not_promoted_iff)
  show "\<not> exhausted s g"
    using avail by (simp add: exhausted_def)
  have le: "cnt g i \<le> 15" if "i < 64" for i
    using Inv_le [OF inv g that] .
  note pro = Increment_promote [OF rep b c_full avail Inv_small [OF inv] le room]
  show "promoted (counts (Increment s g b) g)"
    using pro(1) by (rule prom_rep_promoted)
  show "slot_index (counts (Increment s g b) g) = nextFreeOverflow s"
    by (rule pro(2))
  have idx: "nextFreeOverflow s < 2 ^ 28"
    using avail Inv_small [OF inv] by simp
  have "counts (Increment s g b) g = header 64 (nextFreeOverflow s)"
    by (simp add: Increment_promote_fields(1) [OF c_full np' avail])
  then show "total_count (counts (Increment s g b) g) = 64"
    using idx by (simp add: total_count_header)
qed

lemma promote_after_63:
  assumes inv: "Inv s cnt fl" and g: "g < arrayLength s"
    and empty: "\<And>i. i < 64 \<Longrightarrow> cnt g i = 0"
    and avail: "nextFreeOverflow s < overflowLength s"
    and bs: "distinct bs" "\<forall>b\<in>set bs. b < 64" "length bs = 63" and b: "b < 64"
  shows "admissible s cnt (map (Inc g) bs @ [Inc g b])"
    and "k \<le> 63 \<Longrightarrow> \<not> promoted (counts (run s (map (Inc g) (take k bs))) g)
                     \<and> nextFreeOverflow (run s (map (Inc g) (take k bs))) = nextFreeOverflow s"
    and "promoted (counts (run s (map (Inc g) bs @ [Inc g b])) g)"
    and "slot_index (counts (run s (map (Inc g) bs @ [Inc g b])) g) = nextFreeOverflow s"
    and "total_count (counts (run s (map (Inc g) bs @ [Inc g b])) g) = 64"
proof -
  have p0: "psum (cnt g) 64 = 0"
    using empty by (rule psum_zero)
  have np: "\<not> promoted (counts s g)"
    using Inv_small_total_inline(2) [OF inv g] p0 by simp
  have part: "admissible s cnt (map (Inc g) xs)
     \<and> nextFreeOverflow (run s (map (Inc g) xs)) = nextFreeOverflow s
     \<and> \<not> promoted (counts (run s (map (Inc g) xs)) g)
     \<and> psum (foldl count_op cnt (map (Inc g) xs) g) 64 = psum (cnt g) 64 + length xs"
    if "distinct xs" "set xs \<subseteq> set bs" "length xs \<le> 63" for xs
    using inv g np that(1)
  proof (rule inc_distinct)
    show "\<forall>b\<in>set xs. b < 64 \<and> cnt g b = 0"
      using that(2) bs(2) empty by auto
    show "psum (cnt g) 64 + length xs \<le> 63"
      using that(3) p0 by simp
  qed
  show "\<not> promoted (counts (run s (map (Inc g) (take k bs))) g)
          \<and> nextFreeOverflow (run s (map (Inc g) (take k bs))) = nextFreeOverflow s"
    if "k \<le> 63"
    using part [of "take k bs"] bs that by (simp add: set_take_subset)
  define s1 where "s1 = run s (map (Inc g) bs)"
  define cnt1 where "cnt1 = foldl count_op cnt (map (Inc g) bs)"
  from part [of bs] bs have adm: "admissible s cnt (map (Inc g) bs)"
    and nf1: "nextFreeOverflow s1 = nextFreeOverflow s"
    and np1: "\<not> promoted (counts s1 g)" and full: "psum (cnt1 g) 64 = 63"
    by (simp_all add: s1_def cnt1_def p0)
  obtain fl1 where inv1: "Inv s1 cnt1 fl1"
    using Inv_run [OF inv adm] by (auto simp: s1_def cnt1_def)
  have g1: "g < arrayLength s1" using g by (simp add: s1_def)
  have avail1: "nextFreeOverflow s1 < overflowLength s1"
    using avail by (simp add: nf1) (simp add: s1_def)
  have "cnt1 g b \<le> 1"
  proof -
    have "cnt1 g b + count_list (map (Inc g) bs) (Dec g b)
            = cnt g b + count_list (map (Inc g) bs) (Inc g b)"
      unfolding cnt1_def using adm by (rule admissible_count)
    moreover have "count_list (map (Inc g) bs) (Dec g b) = 0"
      by (simp add: count_list_0_iff image_iff)
    moreover have "count_list (map (Inc g) bs) (Inc g b) = count_list bs b"
      by (induction bs) simp_all
    moreover have "count_list bs b \<le> 1"
      using bs(1) by (induction bs) (auto simp: count_list_0_iff)
    ultimately show ?thesis using empty [OF b] by simp
  qed
  then have room: "cnt1 g b < 15" by simp
  note pr = Inv_promote [OF inv1 g1 b np1 full avail1 room]
  show "admissible s cnt (map (Inc g) bs @ [Inc g b])"
    using adm g1 b room pr(4)
    by (simp add: admissible_append del: count_op.simps flip: s1_def cnt1_def)
  show "promoted (counts (run s (map (Inc g) bs @ [Inc g b])) g)"
    using pr(1) by (simp add: run_append s1_def)
  show "slot_index (counts (run s (map (Inc g) bs @ [Inc g b])) g) = nextFreeOverflow s"
    using pr(2) nf1 by (simp add: run_append s1_def)
  show "total_count (counts (run s (map (Inc g) bs @ [Inc g b])) g) = 64"
    using pr(3) by (simp add: run_append s1_def)
qed

end
